theory Spec2Isabelle
  imports Complex_Main "HOL-Library.Multiset" "HOL-Library.Word" "HOL-Library.Extended_Nat"
begin

chapter \<open>Definitions: the program\<close>

section \<open>Thread manager: partitioning the task list into worker chunks\<close>

text \<open>
  \<^verbatim>\<open>chunkFiles\<close> of the thread manager. A chunk is the object
  \<^verbatim>\<open>{ files: chunk, workerIndex: i }\<close>. The element type of the task list is left
  open: a task is a path or a fragment object, and \<^verbatim>\<open>chunkFiles\<close> never looks at it.
\<close>

record 'a work_chunk =
  files :: "'a list"
  workerIndex :: nat

text \<open>
  \<^verbatim>\<open>Math.ceil(a / b)\<close> on an array length and a thread count. For \<open>b = 0\<close> the source
  computes \<^verbatim>\<open>Infinity\<close> or \<^verbatim>\<open>NaN\<close>; the loop guard \<^verbatim>\<open>i < this.threadCount\<close> is then
  false at once and the value is never used, so the value at \<open>b = 0\<close> is immaterial.
  Lemma \<open>ceil_div_ceiling\<close> below relates the definition to the ceiling of the quotient.
\<close>

definition ceil_div :: "nat \<Rightarrow> nat \<Rightarrow> nat" where
  "ceil_div a b = (a + b - 1) div b"

text \<open>\<^verbatim>\<open>Array.prototype.slice(start, end)\<close> for \<open>0 \<le> start\<close> and \<open>0 \<le> end\<close>.\<close>

definition slice :: "'a list \<Rightarrow> nat \<Rightarrow> nat \<Rightarrow> 'a list" where
  "slice xs start end = take (end - start) (drop start xs)"

text \<open>
  The \<^verbatim>\<open>for\<close> loop of \<^verbatim>\<open>chunkFiles\<close>, with the loop counter \<open>i\<close> and the array
  \<open>chunks\<close> built so far as arguments.
\<close>

function chunk_loop ::
  "'a list \<Rightarrow> nat \<Rightarrow> nat \<Rightarrow> nat \<Rightarrow> 'a work_chunk list \<Rightarrow> 'a work_chunk list" where
  "chunk_loop fs threadCount filesPerWorker i chunks =
     (if i < threadCount \<and> i * filesPerWorker < length fs then
        let start = i * filesPerWorker;
            end = min (start + filesPerWorker) (length fs);
            chunk = slice fs start end
        in chunk_loop fs threadCount filesPerWorker (i + 1)
             (if length chunk > 0
              then chunks @ [\<lparr>files = chunk, workerIndex = i\<rparr>]
              else chunks)
      else chunks)"
  by pat_completeness auto
termination
  by (relation "measure (\<lambda>(fs, threadCount, filesPerWorker, i, chunks). threadCount - i)") auto

declare chunk_loop.simps [simp del]

definition chunkFiles :: "nat \<Rightarrow> 'a list \<Rightarrow> 'a work_chunk list" where
  "chunkFiles threadCount fs =
     chunk_loop fs threadCount (ceil_div (length fs) threadCount) 0 []"

section \<open>Image compressor: values shared by the engine\<close>

text \<open>
  A \<^verbatim>\<open>Buffer\<close> is a sequence of bytes; the engine only ever reads its \<^verbatim>\<open>length\<close>.
  An object literal handed to the codec is a list of keys with their values, in the order
  the source writes them. A thrown \<^verbatim>\<open>Error\<close> is the left summand of a result and
  carries the message.
\<close>

type_synonym buffer = "8 word list"

datatype js_value = Num int | Bool bool | Str string

type_synonym js_object = "(string \<times> js_value) list"

text \<open>
  The file system as far as the engine writes to it: \<^verbatim>\<open>fs.writeFile(path, buffer)\<close>
  stores the bytes under the path. Failures of the operating system are outside the model.
\<close>

type_synonym filesystem = "string \<Rightarrow> buffer option"

definition writeFile :: "filesystem \<Rightarrow> string \<Rightarrow> buffer \<Rightarrow> filesystem" where
  "writeFile fs path buf = fs(path \<mapsto> buf)"

text \<open>\<^verbatim>\<open>String.prototype.toLowerCase\<close> on ASCII text (a \<open>char\<close> is a byte).\<close>

definition lower_char :: "char \<Rightarrow> char" where
  "lower_char c =
     (let n = (of_char c :: nat) in if 65 \<le> n \<and> n \<le> 90 then char_of (n + 32) else c)"

definition toLowerCase :: "string \<Rightarrow> string" where
  "toLowerCase s = map lower_char s"

text \<open>
  The fields of an \<^verbatim>\<open>ImageCompressor\<close> instance that the encode parameters depend on
  (the constructor's \<^verbatim>\<open>options.speedOptimized || false\<close> and
  \<^verbatim>\<open>options.skipOptimizations || false\<close>).
\<close>

record image_compressor =
  speedOptimized :: bool
  skipOptimizations :: bool

text \<open>
  The codec capability as the engine calls it on its decoded source:
  \<^verbatim>\<open>instance[format](opts).toBuffer()\<close>, where \<open>instance\<close> is the engine's sharp
  instance or a clone of it. It is external to the repository and a parameter of the model.
\<close>

type_synonym codec = "string \<Rightarrow> js_object \<Rightarrow> string + buffer"

definition getCompressionOptions :: "image_compressor \<Rightarrow> string \<Rightarrow> int \<Rightarrow> js_object" where
  "getCompressionOptions this format quality =
     (let f = toLowerCase format in
      if f = ''avif'' then
        [(''quality'', Num (max 20 (quality - 35))),
         (''effort'', Num (if speedOptimized this then 2 else 6)),
         (''chromaSubsampling'', Str ''4:2:0''),
         (''lossless'', Bool False)]
      else if f = ''webp'' then
        [(''quality'', Num quality),
         (''effort'', Num (if speedOptimized this then 2 else 6)),
         (''lossless'', Bool False),
         (''smartSubsample'', Bool True),
         (''nearLossless'', Bool False)]
      else if f = ''jpeg'' \<or> f = ''jpg'' then
        [(''quality'', Num quality),
         (''progressive'', Bool True),
         (''mozjpeg'', Bool (\<not> speedOptimized this)),
         (''chromaSubsampling'', Str ''4:2:0''),
         (''optimiseCoding'', Bool (\<not> skipOptimizations this)),
         (''optimiseScans'', Bool (\<not> skipOptimizations this))]
      else if f = ''png'' then
        [(''quality'', Num quality),
         (''compressionLevel'', Num (if speedOptimized this then 6 else 9)),
         (''palette'', Bool (quality < 90)),
         (''adaptiveFiltering'', Bool (\<not> skipOptimizations this)),
         (''effort'', Num (if speedOptimized this then 5 else 10))]
      else [(''quality'', Num quality)])"

definition compressWithQuality ::
  "codec \<Rightarrow> image_compressor \<Rightarrow> string \<Rightarrow> int \<Rightarrow> string + buffer" where
  "compressWithQuality sharp this format quality =
     sharp format (getCompressionOptions this format quality)"

section \<open>Image compressor: binary search on quality (standard path)\<close>

definition maxAttempts :: nat where
  "maxAttempts = 15"

text \<open>
  The \<^verbatim>\<open>while\<close> loop shared, word for word, by \<^verbatim>\<open>binarySearchQuality\<close> and
  \<^verbatim>\<open>binarySearchQualityBuffer\<close>. Its arguments are the loop's variables, and \<open>tested\<close>
  records, in order, every quality the loop has handed to \<^verbatim>\<open>compressWithQuality\<close>.
  The loop returns the final \<^verbatim>\<open>bestBuffer\<close> (\<open>None\<close> for \<^verbatim>\<open>null\<close>), or the error of
  an encode that threw, and the qualities tested.
\<close>

function bs_loop ::
  "codec \<Rightarrow> image_compressor \<Rightarrow> string \<Rightarrow> nat \<Rightarrow> int \<Rightarrow> int \<Rightarrow> buffer option \<Rightarrow> nat \<Rightarrow> int list
     \<Rightarrow> (string + buffer option) \<times> int list" where
  "bs_loop sharp this format targetSize minQ maxQ bestBuffer attempts tested =
     (if minQ \<le> maxQ \<and> attempts < maxAttempts then
        let q = (minQ + maxQ) div 2 in
        case compressWithQuality sharp this format q of
          Inl err \<Rightarrow> (Inl err, tested @ [q])
        | Inr buffer \<Rightarrow>
            if length buffer \<le> targetSize
            then bs_loop sharp this format targetSize (q + 1) maxQ (Some buffer)
                   (attempts + 1) (tested @ [q])
            else bs_loop sharp this format targetSize minQ (q - 1) bestBuffer
                   (attempts + 1) (tested @ [q])
      else (Inr bestBuffer, tested))"
  by pat_completeness auto
termination
  by (relation "measure (\<lambda>(sharp, this, format, targetSize, minQ, maxQ, bestBuffer, attempts, tested).
        maxAttempts - attempts)") auto

declare bs_loop.simps [simp del]

text \<open>
  \<^verbatim>\<open>binarySearchQualityBuffer\<close>: a \<^verbatim>\<open>Buffer\<close> object is truthy whatever its length, so
  \<^verbatim>\<open>bestBuffer || ...\<close> falls through exactly when \<^verbatim>\<open>bestBuffer\<close> is \<^verbatim>\<open>null\<close>. The second
  component lists every quality handed to \<^verbatim>\<open>compressWithQuality\<close>, the fallback included.
\<close>

definition binarySearchQualityBuffer ::
  "codec \<Rightarrow> image_compressor \<Rightarrow> string \<Rightarrow> nat \<Rightarrow> (string + buffer) \<times> int list" where
  "binarySearchQualityBuffer sharp this format targetSize =
     (case bs_loop sharp this format targetSize 5 95 None 0 [] of
        (Inl err, tested) \<Rightarrow> (Inl err, tested)
      | (Inr (Some bestBuffer), tested) \<Rightarrow> (Inr bestBuffer, tested)
      | (Inr None, tested) \<Rightarrow> (compressWithQuality sharp this format 5, tested @ [5]))"

text \<open>
  \<^verbatim>\<open>binarySearchQuality\<close>: the same search, the result written to \<^verbatim>\<open>outputPath\<close>.
  It returns the path (or the error), the file system after the call, and the qualities
  handed to \<^verbatim>\<open>compressWithQuality\<close>.
\<close>

definition binarySearchQuality ::
  "codec \<Rightarrow> image_compressor \<Rightarrow> filesystem \<Rightarrow> string \<Rightarrow> string \<Rightarrow> nat
     \<Rightarrow> (string + string) \<times> filesystem \<times> int list" where
  "binarySearchQuality sharp this fs outputPath format targetSize =
     (case bs_loop sharp this format targetSize 5 95 None 0 [] of
        (Inl err, tested) \<Rightarrow> (Inl err, fs, tested)
      | (Inr (Some bestBuffer), tested) \<Rightarrow>
          (Inr outputPath, writeFile fs outputPath bestBuffer, tested)
      | (Inr None, tested) \<Rightarrow>
          (case compressWithQuality sharp this format 5 of
             Inl err \<Rightarrow> (Inl err, fs, tested @ [5])
           | Inr buffer \<Rightarrow> (Inr outputPath, writeFile fs outputPath buffer, tested @ [5])))"

text \<open>
  A synthetic encoder for examples: it reads the \<^verbatim>\<open>quality\<close> it is given and returns
  that many zero bytes (none for a negative quality), so its output size grows with quality.
\<close>

definition synthetic_codec :: codec where
  "synthetic_codec format opts =
     (case map_of opts ''quality'' of
        Some (Num q) \<Rightarrow> Inr (replicate (nat q) 0)
      | _ \<Rightarrow> Inl ''quality missing'')"

section \<open>Image compressor: PNG on the standard path\<close>

definition png_configs :: "js_object list" where
  "png_configs =
     [[(''compressionLevel'', Num 9), (''palette'', Bool True), (''quality'', Num 50),
       (''colours'', Num 128)],
      [(''compressionLevel'', Num 9), (''palette'', Bool True), (''quality'', Num 40),
       (''colours'', Num 64)],
      [(''compressionLevel'', Num 9), (''palette'', Bool True), (''quality'', Num 30),
       (''colours'', Num 32)],
      [(''compressionLevel'', Num 9), (''palette'', Bool False), (''quality'', Num 50)]]"

text \<open>
  The \<^verbatim>\<open>for (const config of configs)\<close> loop of \<^verbatim>\<open>optimizePNG\<close>: the buffer of the first
  configuration whose output fits, \<open>None\<close> when the loop runs out, or the error of an
  encode that threw.
\<close>

fun png_try :: "codec \<Rightarrow> nat \<Rightarrow> js_object list \<Rightarrow> string + buffer option" where
  "png_try sharp targetSize [] = Inr None"
| "png_try sharp targetSize (config # rest) =
     (case sharp ''png'' config of
        Inl err \<Rightarrow> Inl err
      | Inr buffer \<Rightarrow>
          if length buffer \<le> targetSize then Inr (Some buffer)
          else png_try sharp targetSize rest)"

definition optimizePNG ::
  "codec \<Rightarrow> filesystem \<Rightarrow> string \<Rightarrow> nat \<Rightarrow> (string + string) \<times> filesystem" where
  "optimizePNG sharp fs outputPath targetSize =
     (case png_try sharp targetSize png_configs of
        Inl err \<Rightarrow> (Inl err, fs)
      | Inr (Some buffer) \<Rightarrow> (Inr outputPath, writeFile fs outputPath buffer)
      | Inr None \<Rightarrow>
          (case sharp ''png'' (png_configs ! 0) of
             Inl err \<Rightarrow> (Inl err, fs)
           | Inr buffer \<Rightarrow> (Inr outputPath, writeFile fs outputPath buffer)))"

text \<open>
  \<^verbatim>\<open>standardCompression\<close>. For a format that is neither a quality format nor
  \<^verbatim>\<open>png\<close> the source calls \<^verbatim>\<open>sharpInstance.toFile(outputPath)\<close> with no format chosen;
  \<open>toFile\<close> is that capability (the bytes it writes to a path, or its error).
\<close>

definition standardCompression ::
  "codec \<Rightarrow> (string \<Rightarrow> string + buffer) \<Rightarrow> image_compressor \<Rightarrow> filesystem \<Rightarrow> string \<Rightarrow> string
     \<Rightarrow> nat \<Rightarrow> (string + string) \<times> filesystem" where
  "standardCompression sharp toFile this fs outputPath format targetSize =
     (if format \<in> set [''jpeg'', ''jpg'', ''webp'', ''avif''] then
        (case binarySearchQuality sharp this fs outputPath format targetSize of
           (r, fs', tested) \<Rightarrow> (r, fs'))
      else if format = ''png'' then optimizePNG sharp fs outputPath targetSize
      else
        (case toFile outputPath of
           Inl err \<Rightarrow> (Inl err, fs)
         | Inr bytes \<Rightarrow> (Inr outputPath, writeFile fs outputPath bytes)))"

section \<open>Image compressor: racing a catalog of strategies (extreme path)\<close>

text \<open>
  \<^verbatim>\<open>Array.prototype.sort(compare)\<close> is stable; for a comparator that is a total preorder
  the result is the one stable ordering, computed here by insertion. \<open>le a b\<close> stands for
  \<^verbatim>\<open>compare(a, b) <= 0\<close>.
\<close>

fun insort_by :: "('a \<Rightarrow> 'a \<Rightarrow> bool) \<Rightarrow> 'a \<Rightarrow> 'a list \<Rightarrow> 'a list" where
  "insort_by le x [] = [x]"
| "insort_by le x (y # ys) = (if le x y then x # y # ys else y # insort_by le x ys)"

definition sort_by :: "('a \<Rightarrow> 'a \<Rightarrow> bool) \<Rightarrow> 'a list \<Rightarrow> 'a list" where
  "sort_by le xs = foldr (insort_by le) xs []"

text \<open>
  A strategy object; a field the literal leaves out is \<open>None\<close>. The resize factors are
  the decimal fractions of the source, kept exact.
\<close>

record strategy =
  strat_format :: string
  strat_quality :: int
  strat_effort :: "int option"
  strat_palette :: "bool option"
  strat_colors :: "int option"
  strat_resize :: "rat option"

definition mk_strategy :: "string \<Rightarrow> int \<Rightarrow> int option \<Rightarrow> strategy" where
  "mk_strategy f q e =
     \<lparr>strat_format = f, strat_quality = q, strat_effort = e, strat_palette = None,
      strat_colors = None, strat_resize = None\<rparr>"

definition format_strategies :: "string \<Rightarrow> strategy list" where
  "format_strategies fmt =
     (if fmt = ''avif'' then
        [mk_strategy ''avif'' 20 (Some 8), mk_strategy ''avif'' 25 (Some 6),
         mk_strategy ''avif'' 30 (Some 4), mk_strategy ''avif'' 35 (Some 2)]
      else if fmt = ''webp'' then
        [mk_strategy ''webp'' 10 (Some 6), mk_strategy ''webp'' 20 (Some 4),
         mk_strategy ''webp'' 30 (Some 2)]
      else if fmt = ''jpeg'' then
        [mk_strategy ''jpeg'' 10 None, mk_strategy ''jpeg'' 20 None, mk_strategy ''jpeg'' 30 None]
      else if fmt = ''png'' then
        [(mk_strategy ''png'' 10 None)\<lparr>strat_palette := Some True, strat_colors := Some 64\<rparr>,
         (mk_strategy ''png'' 20 None)\<lparr>strat_palette := Some True, strat_colors := Some 128\<rparr>]
      else [])"

definition resize_strategies :: "rat \<Rightarrow> strategy list" where
  "resize_strategies resize =
     [(mk_strategy ''avif'' 30 (Some 2))\<lparr>strat_resize := Some resize\<rparr>,
      (mk_strategy ''webp'' 40 (Some 2))\<lparr>strat_resize := Some resize\<rparr>,
      (mk_strategy ''jpeg'' 50 None)\<lparr>strat_resize := Some resize\<rparr>]"

text \<open>
  \<^verbatim>\<open>generateCompressionStrategies(keepDims, preferredFormat)\<close>; the empty string stands
  for a falsy \<^verbatim>\<open>preferredFormat\<close>.
\<close>

definition generateCompressionStrategies :: "bool \<Rightarrow> string \<Rightarrow> strategy list" where
  "generateCompressionStrategies keepDims preferredFormat =
     (let formats = (if preferredFormat \<noteq> '''' \<and> preferredFormat \<noteq> ''auto''
                     then [preferredFormat]
                     else [''avif'', ''webp'', ''jpeg'', ''png''])
      in concat (map format_strategies formats) @
         (if \<not> keepDims
          then concat (map resize_strategies [0.8, 0.6, 0.5, 0.4, 0.3, 0.2, 0.15, 0.1])
          else []))"

text \<open>
  The object \<^verbatim>\<open>testStrategy\<close> resolves to: on success the strategy, the buffer and the
  measured processing time (\<open>size\<close> is the buffer's length); on a caught error the strategy
  and the message, with \<^verbatim>\<open>size: Infinity\<close>. The constructor stands for the \<^verbatim>\<open>success\<close> flag.
\<close>

datatype outcome =
    Success strategy buffer nat
  | Failure strategy string

fun outcome_success :: "outcome \<Rightarrow> bool" where
  "outcome_success (Success s b t) = True"
| "outcome_success (Failure s e) = False"

fun outcome_size :: "outcome \<Rightarrow> enat" where
  "outcome_size (Success s b t) = enat (length b)"
| "outcome_size (Failure s e) = \<infinity>"

fun outcome_strategy :: "outcome \<Rightarrow> strategy" where
  "outcome_strategy (Success s b t) = s"
| "outcome_strategy (Failure s e) = s"

text \<open>\<^verbatim>\<open>processingTime\<close> and \<^verbatim>\<open>buffer\<close> are \<^verbatim>\<open>undefined\<close> on a failed outcome.\<close>

fun outcome_processingTime :: "outcome \<Rightarrow> nat option" where
  "outcome_processingTime (Success s b t) = Some t"
| "outcome_processingTime (Failure s e) = None"

fun outcome_buffer :: "outcome \<Rightarrow> buffer option" where
  "outcome_buffer (Success s b t) = Some b"
| "outcome_buffer (Failure s e) = None"

text \<open>
  \<^verbatim>\<open>testStrategy\<close>. The body of its \<^verbatim>\<open>try\<close> block (clone, resize when the strategy asks
  for it and \<^verbatim>\<open>keepDims\<close> is off, encode with the strategy's parameters, read the clock)
  is the codec capability and the clock; \<open>encodeStrategy\<close> gives, for a strategy, the
  buffer and the elapsed milliseconds, or the message of what was thrown.
\<close>

definition testStrategy :: "(strategy \<Rightarrow> string + buffer \<times> nat) \<Rightarrow> strategy \<Rightarrow> outcome" where
  "testStrategy encodeStrategy s =
     (case encodeStrategy s of
        Inr (buffer, processingTime) \<Rightarrow> Success s buffer processingTime
      | Inl message \<Rightarrow> Failure s message)"

text \<open>
  The comparators of \<^verbatim>\<open>selectBestResult\<close> and of the caller, as \<open>compare(a, b) <= 0\<close>.
  (\<^verbatim>\<open>sort\<close> treats a \<^verbatim>\<open>NaN\<close> from the comparator, as in \<^verbatim>\<open>Infinity - Infinity\<close> or a
  subtraction with \<^verbatim>\<open>undefined\<close>, as \<open>0\<close>: the two elements count as equal.)
\<close>

definition by_size :: "outcome \<Rightarrow> outcome \<Rightarrow> bool" where
  "by_size a b = (outcome_size a \<le> outcome_size b)"

definition by_size_desc :: "outcome \<Rightarrow> outcome \<Rightarrow> bool" where
  "by_size_desc a b = (outcome_size b \<le> outcome_size a)"

definition by_time :: "outcome \<Rightarrow> outcome \<Rightarrow> bool" where
  "by_time a b =
     (case (outcome_processingTime a, outcome_processingTime b) of
        (Some ta, Some tb) \<Rightarrow> ta \<le> tb
      | _ \<Rightarrow> True)"

text \<open>
  \<^verbatim>\<open>selectBestResult(results, strategy, targetSize)\<close>. On an empty array
  \<^verbatim>\<open>results[0]\<close> is \<^verbatim>\<open>undefined\<close> (\<open>None\<close>), and the \<^verbatim>\<open>auto\<close> branch throws on
  \<^verbatim>\<open>bestQuality.size\<close>. \<^verbatim>\<open>qualityUtil <= 95\<close> is false when the quotient is
  \<^verbatim>\<open>Infinity\<close> or \<^verbatim>\<open>NaN\<close> (an infinite size, or a zero target).
\<close>

definition qualityUtil :: "nat \<Rightarrow> nat \<Rightarrow> rat" where
  "qualityUtil bestSize targetSize = (rat_of_nat bestSize / rat_of_nat targetSize) * 100"

definition selectBestResult :: "outcome list \<Rightarrow> string \<Rightarrow> nat \<Rightarrow> string + outcome option" where
  "selectBestResult results strategy targetSize =
     (case results of
        [] \<Rightarrow> (if strategy \<in> set [''size'', ''speed'', ''quality''] then Inr None
               else Inl ''TypeError: Cannot read properties of undefined (reading size)'')
      | smallest # rest \<Rightarrow>
          let fastest = hd (sort_by by_time results);
              bestQuality = hd (sort_by by_size_desc results)
          in if strategy = ''size'' then Inr (Some smallest)
             else if strategy = ''speed'' then Inr (Some fastest)
             else if strategy = ''quality'' then Inr (Some bestQuality)
             else (case outcome_size bestQuality of
                     \<infinity> \<Rightarrow> Inr (Some smallest)
                   | enat n \<Rightarrow>
                       if targetSize \<noteq> 0 \<and> qualityUtil n targetSize \<le> 95
                       then Inr (Some bestQuality)
                       else Inr (Some smallest)))"

definition getExtensionForFormat :: "string \<Rightarrow> string" where
  "getExtensionForFormat format =
     (if format = ''avif'' then ''.avif''
      else if format = ''webp'' then ''.webp''
      else if format = ''jpeg'' then ''.jpg''
      else if format = ''png'' then ''.png''
      else ''.jpg'')"

text \<open>
  \<^verbatim>\<open>outputPath.replace(/\.[^.]+$/, ext)\<close>: the text from the last dot on is replaced,
  provided at least one character follows that dot; otherwise the path is unchanged.
\<close>

definition replace_ext :: "string \<Rightarrow> string \<Rightarrow> string" where
  "replace_ext path ext =
     (let tail = takeWhile (\<lambda>c. c \<noteq> CHR ''.'') (rev path)
      in if length tail = length path \<or> tail = [] then path
         else take (length path - length tail - 1) path @ ext)"

text \<open>
  The array \<^verbatim>\<open>successful\<close> of \<^verbatim>\<open>extremeCompressionParallel\<close>: the outcomes of the
  whole catalog (\<^verbatim>\<open>testStrategy\<close> never rejects), those that succeeded within the target
  kept and sorted by size.
\<close>

definition successful_outcomes ::
  "(strategy \<Rightarrow> string + buffer \<times> nat) \<Rightarrow> bool \<Rightarrow> string \<Rightarrow> nat \<Rightarrow> outcome list" where
  "successful_outcomes encodeStrategy keepDims format targetSize =
     (let strategies = generateCompressionStrategies keepDims format;
          results = map (testStrategy encodeStrategy) strategies
      in sort_by by_size
           (filter (\<lambda>r. outcome_success r \<and> outcome_size r \<le> enat targetSize) results))"

text \<open>
  \<^verbatim>\<open>extremeCompressionParallel\<close>. \<^verbatim>\<open>options.strategy || 'auto'\<close>: the empty string
  stands for a missing strategy.
\<close>

definition extremeCompressionParallel ::
  "codec \<Rightarrow> (string \<Rightarrow> string + buffer) \<Rightarrow> (strategy \<Rightarrow> string + buffer \<times> nat) \<Rightarrow> image_compressor
     \<Rightarrow> filesystem \<Rightarrow> string \<Rightarrow> string \<Rightarrow> bool \<Rightarrow> string \<Rightarrow> nat
     \<Rightarrow> (string + string) \<times> filesystem" where
  "extremeCompressionParallel sharp toFile encodeStrategy this fs outputPath format keepDims
       strategy targetSize =
     (let successful = successful_outcomes encodeStrategy keepDims format targetSize
      in if length successful > 0 then
           (case selectBestResult successful (if strategy = '''' then ''auto'' else strategy)
                   targetSize of
              Inl err \<Rightarrow> (Inl err, fs)
            | Inr None \<Rightarrow> (Inl ''TypeError: Cannot read properties of undefined'', fs)
            | Inr (Some chosen) \<Rightarrow>
                let ext = getExtensionForFormat (strat_format (outcome_strategy chosen));
                    finalPath = replace_ext outputPath ext
                in (case outcome_buffer chosen of
                      None \<Rightarrow> (Inl ''TypeError: data must be a Buffer'', fs)
                    | Some buffer \<Rightarrow> (Inr finalPath, writeFile fs finalPath buffer)))
         else standardCompression sharp toFile this fs outputPath format targetSize)"

text \<open>
  \<^verbatim>\<open>compressToTargetSizeFile\<close>: \<^verbatim>\<open>targetSize / originalSize < 0.10\<close> is false when
  the quotient is \<^verbatim>\<open>Infinity\<close> or \<^verbatim>\<open>NaN\<close> (a zero original size).
\<close>

definition compressToTargetSizeFile ::
  "codec \<Rightarrow> (string \<Rightarrow> string + buffer) \<Rightarrow> (strategy \<Rightarrow> string + buffer \<times> nat) \<Rightarrow> image_compressor
     \<Rightarrow> filesystem \<Rightarrow> string \<Rightarrow> string \<Rightarrow> bool \<Rightarrow> string \<Rightarrow> nat \<Rightarrow> nat
     \<Rightarrow> (string + string) \<times> filesystem" where
  "compressToTargetSizeFile sharp toFile encodeStrategy this fs outputPath format keepDims
       strategy originalSize targetSize =
     (if originalSize \<noteq> 0 \<and> rat_of_nat targetSize / rat_of_nat originalSize < 0.10
      then extremeCompressionParallel sharp toFile encodeStrategy this fs outputPath format
             keepDims strategy targetSize
      else standardCompression sharp toFile this fs outputPath format targetSize)"

text \<open>
  A synthetic PNG encoder for examples: the output has as many bytes as the palette has
  colours, and 200 bytes when the options name no palette size.
\<close>

definition palette_codec :: codec where
  "palette_codec format opts =
     (case map_of opts ''colours'' of
        Some (Num c) \<Rightarrow> Inr (replicate (nat c) 0)
      | _ \<Rightarrow> Inr (replicate 200 0))"

text \<open>
  A synthetic catalog encoder for examples: a strategy without resize yields as many
  bytes as its quality, in as many milliseconds as its effort (one when it names none);
  a strategy with a resize factor throws.
\<close>

definition catalog_encoder :: "strategy \<Rightarrow> string + buffer \<times> nat" where
  "catalog_encoder s =
     (case strat_resize s of
        Some r \<Rightarrow> Inl ''resize unavailable''
      | None \<Rightarrow>
          Inr (replicate (nat (strat_quality s)) 0,
               (case strat_effort s of Some e \<Rightarrow> nat e | None \<Rightarrow> 1)))"

section \<open>Image compressor: automatic format selection\<close>

text \<open>
  An entry of \<^verbatim>\<open>results\<close> in \<^verbatim>\<open>findBestFormat\<close>: the format name, the extension, and
  either the buffer (\<open>size\<close> is its length) or the caught error (\<^verbatim>\<open>size: Infinity\<close>).
\<close>

datatype format_result = FormatResult string string "string + buffer"

fun fr_format :: "format_result \<Rightarrow> string" where
  "fr_format (FormatResult f ext r) = f"

fun fr_extension :: "format_result \<Rightarrow> string" where
  "fr_extension (FormatResult f ext r) = ext"

fun fr_outcome :: "format_result \<Rightarrow> string + buffer" where
  "fr_outcome (FormatResult f ext r) = r"

fun fr_error :: "format_result \<Rightarrow> bool" where
  "fr_error (FormatResult f ext (Inl err)) = True"
| "fr_error (FormatResult f ext (Inr buffer)) = False"

fun fr_size :: "format_result \<Rightarrow> enat" where
  "fr_size (FormatResult f ext (Inl err)) = \<infinity>"
| "fr_size (FormatResult f ext (Inr buffer)) = enat (length buffer)"

text \<open>
  Starting an encode, \<^verbatim>\<open>sharpInstance.clone().avif({ ... }).toBuffer()\<close> and the like:
  the call chain throws at once (the library refuses an option), or it returns a promise,
  which later rejects or resolves with the bytes.
\<close>

datatype encode_start = Throws string | Rejects string | Resolves buffer

type_synonym starter = "string \<Rightarrow> js_object \<Rightarrow> encode_start"

text \<open>
  An encode that is started and awaited in one place: a throw and a rejection both
  arrive as the error of the \<^verbatim>\<open>await\<close>.
\<close>

definition awaited :: "starter \<Rightarrow> codec" where
  "awaited start format opts =
     (case start format opts of
        Throws err \<Rightarrow> Inl err
      | Rejects err \<Rightarrow> Inl err
      | Resolves buffer \<Rightarrow> Inr buffer)"

text \<open>
  The array \<^verbatim>\<open>formats\<close>: for each candidate the format, the extension and the options
  its encode is started with.
\<close>

definition format_candidates :: "bool \<Rightarrow> int \<Rightarrow> (string \<times> string \<times> js_object) list" where
  "format_candidates hasAlpha quality =
     [(''avif'', ''.avif'',
        [(''quality'', Num (max 20 (quality - 35))), (''effort'', Num 4),
         (''chromaSubsampling'', Str ''4:2:0'')]),
      (''webp'', ''.webp'',
        [(''quality'', Num quality), (''effort'', Num 4), (''smartSubsample'', Bool True)])]
     @ (if \<not> hasAlpha then
          [(''jpeg'', ''.jpg'',
             [(''quality'', Num quality), (''progressive'', Bool True), (''mozjpeg'', Bool True),
              (''chromaSubsampling'', Str ''4:2:0'')])]
        else [])
     @ (if hasAlpha \<or> quality > 90 then
          [(''png'', ''.png'',
             [(''quality'', Num quality), (''compressionLevel'', Num 9),
              (''palette'', Bool (quality < 90)), (''effort'', Num 10)])]
        else [])"

text \<open>
  Building \<^verbatim>\<open>formats\<close>: the encodes are started one after the other, outside any
  \<^verbatim>\<open>try\<close>. A start that throws ends \<^verbatim>\<open>findBestFormat\<close> with that error (\<open>Inl\<close>);
  otherwise the entry holds the promise, here by what it settles to.
\<close>

fun build_formats ::
  "starter \<Rightarrow> (string \<times> string \<times> js_object) list
     \<Rightarrow> string + (string \<times> string \<times> (string + buffer)) list" where
  "build_formats start [] = Inr []"
| "build_formats start (c # rest) =
     (case c of (f, ext, opts) \<Rightarrow>
        (case start f opts of
           Throws err \<Rightarrow> Inl err
         | Rejects err \<Rightarrow>
             (case build_formats start rest of
                Inl e \<Rightarrow> Inl e
              | Inr formats \<Rightarrow> Inr ((f, ext, Inl err) # formats))
         | Resolves buffer \<Rightarrow>
             (case build_formats start rest of
                Inl e \<Rightarrow> Inl e
              | Inr formats \<Rightarrow> Inr ((f, ext, Inr buffer) # formats))))"

text \<open>
  The array \<^verbatim>\<open>results\<close>: every promise awaited inside its own \<^verbatim>\<open>try\<close>, a rejection
  kept as the entry's error.
\<close>

definition format_results :: "starter \<Rightarrow> bool \<Rightarrow> int \<Rightarrow> string + format_result list" where
  "format_results start hasAlpha quality =
     (case build_formats start (format_candidates hasAlpha quality) of
        Inl err \<Rightarrow> Inl err
      | Inr formats \<Rightarrow> Inr (map (\<lambda>(f, ext, promise). FormatResult f ext promise) formats))"

text \<open>
  The filter \<^verbatim>\<open>!r.error && r.size < originalSize * 0.95\<close>; the product is taken
  exactly.
\<close>

definition qualifies :: "nat \<Rightarrow> format_result \<Rightarrow> bool" where
  "qualifies originalSize r =
     (\<not> fr_error r \<and>
      (case fr_size r of
         enat n \<Rightarrow> rat_of_nat n < rat_of_nat originalSize * 0.95
       | \<infinity> \<Rightarrow> False))"

definition by_fr_size :: "format_result \<Rightarrow> format_result \<Rightarrow> bool" where
  "by_fr_size a b = (fr_size a \<le> fr_size b)"

text \<open>
  \<^verbatim>\<open>findBestFormat\<close>: \<^verbatim>\<open>sorted[0] || results[0]\<close>; \<^verbatim>\<open>results\<close> always holds the
  \<^verbatim>\<open>avif\<close> and \<^verbatim>\<open>webp\<close> entries.
\<close>

definition findBestFormat :: "starter \<Rightarrow> bool \<Rightarrow> int \<Rightarrow> nat \<Rightarrow> string + format_result" where
  "findBestFormat start hasAlpha quality originalSize =
     (case format_results start hasAlpha quality of
        Inl err \<Rightarrow> Inl err
      | Inr results \<Rightarrow>
          Inr (case sort_by by_fr_size (filter (qualifies originalSize) results) of
                 best # rest \<Rightarrow> best
               | [] \<Rightarrow> results ! 0))"

text \<open>
  The options an engine call reads. \<open>opt_quality\<close> is \<^verbatim>\<open>parseInt(options.quality)\<close>,
  \<open>None\<close> for \<^verbatim>\<open>NaN\<close>; a missing key is \<open>None\<close>.
\<close>

record compression_options =
  opt_format :: "string option"
  opt_quality :: "int option"
  opt_strategy :: "string option"
  opt_keepDimensions :: bool

text \<open>
  \<^verbatim>\<open>determineOutputFormat\<close>; \<open>extname\<close> is Node's \<^verbatim>\<open>path.extname\<close>, a parameter.
\<close>

definition determineOutputFormat :: "(string \<Rightarrow> string) \<Rightarrow> string \<Rightarrow> string option \<Rightarrow> string" where
  "determineOutputFormat extname outputPath formatOption =
     (case formatOption of
        Some f \<Rightarrow>
          if f \<noteq> '''' \<and> f \<noteq> ''auto'' then
            (case map_of [(''jpg'', ''jpeg''), (''jpeg'', ''jpeg''), (''png'', ''png''),
                          (''webp'', ''webp''), (''avif'', ''avif'')] (toLowerCase f) of
               Some normalized \<Rightarrow> normalized
             | None \<Rightarrow> toLowerCase f)
          else
            (case map_of [(''.avif'', ''avif''), (''.webp'', ''webp''), (''.jpg'', ''jpeg''),
                          (''.jpeg'', ''jpeg''), (''.png'', ''png'')]
                    (toLowerCase (extname outputPath)) of
               Some g \<Rightarrow> g
             | None \<Rightarrow> ''jpeg'')
      | None \<Rightarrow>
          (case map_of [(''.avif'', ''avif''), (''.webp'', ''webp''), (''.jpg'', ''jpeg''),
                        (''.jpeg'', ''jpeg''), (''.png'', ''png'')]
                  (toLowerCase (extname outputPath)) of
             Some g \<Rightarrow> g
           | None \<Rightarrow> ''jpeg''))"

text \<open>
  \<^verbatim>\<open>compressToFile\<close>. \<open>targetSize\<close> is the \<^verbatim>\<open>_targetSize\<close> that
  \<^verbatim>\<open>applyTransformations\<close> left on the instance (\<open>None\<close> when there is none; zero is
  falsy). \<^verbatim>\<open>fs.writeFile\<close> throws when \<^verbatim>\<open>result.buffer\<close> is \<^verbatim>\<open>undefined\<close>, which is
  the case of a fallback entry that carries an error. Outside \<^verbatim>\<open>findBestFormat\<close> every
  encode is awaited where it is started.
\<close>

definition compressToFile ::
  "starter \<Rightarrow> (string \<Rightarrow> string + buffer) \<Rightarrow> (strategy \<Rightarrow> string + buffer \<times> nat) \<Rightarrow> (string \<Rightarrow> string)
     \<Rightarrow> image_compressor \<Rightarrow> filesystem \<Rightarrow> string \<Rightarrow> compression_options \<Rightarrow> nat option \<Rightarrow> nat
     \<Rightarrow> bool \<Rightarrow> (string + string) \<times> filesystem" where
  "compressToFile start toFile encodeStrategy extname this fs outputPath options targetSize
       originalSize hasAlpha =
     (let format = determineOutputFormat extname outputPath (opt_format options);
          target = (case targetSize of None \<Rightarrow> 0 | Some t \<Rightarrow> t)
      in
      if target \<noteq> 0 then
        compressToTargetSizeFile (awaited start) toFile encodeStrategy this fs outputPath format
          (opt_keepDimensions options)
          (case opt_strategy options of None \<Rightarrow> '''' | Some s \<Rightarrow> s)
          originalSize target
      else
        let quality = (case opt_quality options of
                         None \<Rightarrow> 85 | Some q \<Rightarrow> if q = 0 then 85 else q)
        in if opt_format options = Some ''auto'' \<or> opt_format options = None
              \<or> opt_format options = Some ''''
           then
             (case findBestFormat start hasAlpha quality originalSize of
                Inl err \<Rightarrow> (Inl err, fs)
              | Inr result \<Rightarrow>
                  let finalPath = replace_ext outputPath (fr_extension result)
                  in (case fr_outcome result of
                        Inl err \<Rightarrow> (Inl ''TypeError: The data argument must be a Buffer'', fs)
                      | Inr buffer \<Rightarrow> (Inr finalPath, writeFile fs finalPath buffer)))
           else
             (case awaited start format (getCompressionOptions this format quality) of
                Inl err \<Rightarrow> (Inl err, fs)
              | Inr bytes \<Rightarrow> (Inr outputPath, writeFile fs outputPath bytes)))"

text \<open>
  A synthetic encoder for examples of format selection. Like the image library it
  refuses, when the encode is started, a quality outside \<open>1..100\<close>; otherwise it gives
  97 bytes for \<^verbatim>\<open>avif\<close>, 95 for \<^verbatim>\<open>webp\<close>, 99 for \<^verbatim>\<open>jpeg\<close>, 120 for anything else.
\<close>

definition format_codec :: starter where
  "format_codec format opts =
     (case map_of opts ''quality'' of
        Some (Num q) \<Rightarrow>
          if 1 \<le> q \<and> q \<le> 100 then
            Resolves (replicate (if format = ''avif'' then 97 else if format = ''webp'' then 95
                                 else if format = ''jpeg'' then 99 else 120) 0)
          else Throws ''Expected integer between 1 and 100 for quality''
      | _ \<Rightarrow> Throws ''Expected integer between 1 and 100 for quality'')"

section \<open>Worker runtime: processing one chunk\<close>

text \<open>
  A task is a path or a fragment object. The result of a compressor is the object the
  engines return, with the fields the worker and the pool read or set; \<^verbatim>\<open>reduction\<close> and
  \<^verbatim>\<open>metadata\<close> are carried along untouched in the source and left out here.
  \<open>cr_inputFile\<close> is the path, or the buffer when a buffer was compressed.
\<close>

record fragment_task =
  frag_buffer :: buffer
  fragmentIndex :: nat
  totalFragments :: nat
  originalFile :: string
  frag_ext :: string

datatype task = WholeFile string | Fragment fragment_task

datatype input_ref = InPath string | InBuffer buffer

record compression_result =
  cr_inputFile :: input_ref
  cr_outputFile :: "string option"
  cr_originalSize :: nat
  cr_compressedSize :: nat
  cr_buffer :: "buffer option"
  cr_fragmentIndex :: "nat option"
  cr_totalFragments :: "nat option"
  cr_originalFile :: "string option"

text \<open>
  An entry of the worker's \<^verbatim>\<open>results\<close> array: the compressor's result with
  \<^verbatim>\<open>processingTime\<close>, \<^verbatim>\<open>workerIndex\<close> and \<^verbatim>\<open>success: true\<close>, or the failure record
  \<^verbatim>\<open>{ file, error, workerIndex, success: false }\<close>.
\<close>

datatype item_result =
    ItemSuccess compression_result nat nat
  | ItemFailure string string nat

text \<open>The messages a worker posts to the pool, by their \<^verbatim>\<open>type\<close>.\<close>

datatype message =
    Progress string compression_result nat
  | ErrorMsg string string nat
  | Complete "item_result list" nat
  | WorkerError string nat

text \<open>Decimal digits of a number, as a template literal prints it.\<close>

function show_nat :: "nat \<Rightarrow> string" where
  "show_nat n =
     (if n < 10 then [char_of (48 + n)]
      else show_nat (n div 10) @ [char_of (48 + n mod 10)])"
  by pat_completeness auto
termination
  by (relation "measure (\<lambda>n. n)") auto

declare show_nat.simps [simp del]

text \<open>
  \<^verbatim>\<open>/(jpg|jpeg|png|webp|avif|bmp|tiff)$/i.test(file)\<close> and the like: the text ends,
  whatever the case of its letters, with one of the alternatives.
\<close>

definition endsWith :: "string \<Rightarrow> string \<Rightarrow> bool" where
  "endsWith s e = (length e \<le> length s \<and> drop (length s - length e) s = e)"

definition isImage :: "string \<Rightarrow> bool" where
  "isImage file =
     list_ex (endsWith (toLowerCase file))
       [''jpg'', ''jpeg'', ''png'', ''webp'', ''avif'', ''bmp'', ''tiff'']"

definition isVideo :: "string \<Rightarrow> bool" where
  "isVideo file =
     list_ex (endsWith (toLowerCase file))
       [''mp4'', ''avi'', ''mov'', ''mkv'', ''webm'', ''flv'', ''wmv'']"

text \<open>
  What the worker calls and does not define: the two engines' \<^verbatim>\<open>compress\<close> (a thrown
  error is \<open>Inl\<close> of its message), the elapsed milliseconds it measures around an item,
  and Node's \<^verbatim>\<open>path.basename\<close> and \<^verbatim>\<open>path.extname\<close>.
\<close>

record worker_env =
  imageCompress :: "input_ref \<Rightarrow> string + compression_result"
  videoCompress :: "string \<Rightarrow> string + compression_result"
  elapsed :: "task \<Rightarrow> nat"
  path_basename :: "string \<Rightarrow> string"
  path_extname :: "string \<Rightarrow> string"

text \<open>The name under which an item is reported in \<^verbatim>\<open>progress\<close> and \<^verbatim>\<open>error\<close> messages.\<close>

definition fragment_label :: "worker_env \<Rightarrow> fragment_task \<Rightarrow> string" where
  "fragment_label env f =
     path_basename env (originalFile f) @ ''[fragment '' @ show_nat (fragmentIndex f + 1) @ ''/''
       @ show_nat (totalFragments f) @ '']''"

definition task_label :: "worker_env \<Rightarrow> task \<Rightarrow> string" where
  "task_label env file =
     (case file of
        WholeFile p \<Rightarrow> path_basename env p
      | Fragment f \<Rightarrow> fragment_label env f)"

text \<open>
  The part of the inner \<^verbatim>\<open>try\<close> block that can throw: the dispatch on the task and the
  call of the engine. A buffer object is truthy, so \<^verbatim>\<open>file.buffer && file.originalFile\<close>
  holds unless \<^verbatim>\<open>originalFile\<close> is the empty string.
\<close>

definition compress_task :: "worker_env \<Rightarrow> task \<Rightarrow> string + compression_result" where
  "compress_task env file =
     (case file of
        Fragment f \<Rightarrow>
          if originalFile f \<noteq> '''' then
            (case imageCompress env (InBuffer (frag_buffer f)) of
               Inl err \<Rightarrow> Inl err
             | Inr result \<Rightarrow>
                 Inr (result\<lparr>cr_fragmentIndex := Some (fragmentIndex f),
                             cr_totalFragments := Some (totalFragments f),
                             cr_originalFile := Some (originalFile f)\<rparr>))
          else Inl ''Unknown task payload received by worker''
      | WholeFile p \<Rightarrow>
          if isImage p then imageCompress env (InPath p)
          else if isVideo p then videoCompress env p
          else Inl (''Unsupported file type: '' @ path_extname env p))"

text \<open>
  One round of the \<^verbatim>\<open>for (const file of files)\<close> loop: the entry pushed to
  \<^verbatim>\<open>results\<close> and the message posted, on the \<^verbatim>\<open>try\<close> side or on the \<^verbatim>\<open>catch\<close> side.
\<close>

definition process_item :: "worker_env \<Rightarrow> nat \<Rightarrow> task \<Rightarrow> item_result \<times> message" where
  "process_item env wi file =
     (case compress_task env file of
        Inr result \<Rightarrow>
          (ItemSuccess result (elapsed env file) wi, Progress (task_label env file) result wi)
      | Inl err \<Rightarrow>
          (ItemFailure (case file of WholeFile p \<Rightarrow> p | Fragment f \<Rightarrow> originalFile f) err wi,
           ErrorMsg (task_label env file) err wi))"

text \<open>The loop, with the \<^verbatim>\<open>results\<close> array and the messages posted so far.\<close>

fun chunk_items ::
  "worker_env \<Rightarrow> nat \<Rightarrow> task list \<Rightarrow> item_result list \<Rightarrow> message list
     \<Rightarrow> item_result list \<times> message list" where
  "chunk_items env wi [] results posted = (results, posted)"
| "chunk_items env wi (file # rest) results posted =
     (case process_item env wi file of
        (entry, msg) \<Rightarrow> chunk_items env wi rest (results @ [entry]) (posted @ [msg]))"

text \<open>
  \<^verbatim>\<open>processChunk\<close>: everything the worker posts, in order. \<open>setupError\<close> is what
  constructing the two engines throws, if anything (the video engine's constructor is not
  among the sources); it is caught by the outer \<^verbatim>\<open>try\<close> and reported as
  \<^verbatim>\<open>worker_error\<close>.
\<close>

definition processChunk :: "worker_env \<Rightarrow> string option \<Rightarrow> task list \<Rightarrow> nat \<Rightarrow> message list" where
  "processChunk env setupError fs wi =
     (case setupError of
        Some err \<Rightarrow> [WorkerError err wi]
      | None \<Rightarrow>
          (case chunk_items env wi fs [] [] of
             (results, posted) \<Rightarrow> posted @ [Complete results wi]))"

section \<open>Thread manager: aggregating the workers' messages\<close>

text \<open>
  The shared \<^verbatim>\<open>results\<close> object of \<^verbatim>\<open>processFiles\<close>. An entry of \<^verbatim>\<open>errors\<close> is
  \<^verbatim>\<open>{ file, error, worker }\<close> (\<open>worker\<close> is absent from the entries of the public
  result); an entry of \<^verbatim>\<open>files\<close> is \<^verbatim>\<open>{ inputFile, outputFile }\<close>.
\<close>

record error_entry =
  err_file :: string
  err_error :: string
  err_worker :: "nat option"

record batch_results =
  processed :: nat
  errors :: "error_entry list"
  totalSizeReduction :: int
  processingTimes :: "nat list"
  result_files :: "(input_ref \<times> string) list"

definition empty_results :: batch_results where
  "empty_results =
     \<lparr>processed = 0, errors = [], totalSizeReduction = 0, processingTimes = [],
      result_files = []\<rparr>"

text \<open>
  The body of \<^verbatim>\<open>message.results.forEach\<close> in the \<^verbatim>\<open>complete\<close> case.
  \<^verbatim>\<open>result.outputFile\<close> is truthy when it is a non-empty string.
\<close>

fun add_result :: "batch_results \<Rightarrow> item_result \<Rightarrow> batch_results" where
  "add_result results (ItemSuccess r t wi) =
     (let results1 = results\<lparr>processed := processed results + 1,
            totalSizeReduction := totalSizeReduction results
               + (int (cr_originalSize r) - int (cr_compressedSize r)),
            processingTimes := processingTimes results @ [t]\<rparr>
      in case cr_outputFile r of
           Some out \<Rightarrow>
             if out \<noteq> ''''
             then results1\<lparr>result_files := result_files results1 @ [(cr_inputFile r, out)]\<rparr>
             else results1
         | None \<Rightarrow> results1)"
| "add_result results (ItemFailure f e wi) = results"

text \<open>What the \<^verbatim>\<open>message\<close> handler of \<^verbatim>\<open>createWorker\<close> does to \<^verbatim>\<open>results\<close>.\<close>

fun apply_message :: "batch_results \<Rightarrow> message \<Rightarrow> batch_results" where
  "apply_message results (Progress f r wi) = results"
| "apply_message results (ErrorMsg f e wi) =
     results\<lparr>errors := errors results @ [\<lparr>err_file = f, err_error = e, err_worker = Some wi\<rparr>]\<rparr>"
| "apply_message results (Complete rs wi) = foldl add_result results rs"
| "apply_message results (WorkerError e wi) = results"

text \<open>
  The promise of one worker: the handler resolves it on \<^verbatim>\<open>complete\<close> and rejects it on
  \<^verbatim>\<open>worker_error\<close>; a settled promise stays as it is.
\<close>

datatype promise_state = Pending | Resolved | Rejected string

fun settle :: "promise_state \<Rightarrow> message \<Rightarrow> promise_state" where
  "settle Pending (Complete rs wi) = Resolved"
| "settle Pending (WorkerError e wi) =
     Rejected (''Worker '' @ show_nat wi @ '' failed: '' @ e)"
| "settle p m = p"

definition handle_messages ::
  "batch_results \<times> promise_state \<Rightarrow> message list \<Rightarrow> batch_results \<times> promise_state" where
  "handle_messages st msgs =
     foldl (\<lambda>(results, p) m. (apply_message results m, settle p m)) st msgs"

section \<open>Public interface: accumulating the thread manager's results\<close>

text \<open>
  \<^verbatim>\<open>accumulateThreadResults(source, target)\<close>, returning the updated \<^verbatim>\<open>target\<close>. The
  thread manager's result always has a \<^verbatim>\<open>files\<close> array.
\<close>

definition accumulateThreadResults :: "batch_results \<Rightarrow> batch_results \<Rightarrow> batch_results" where
  "accumulateThreadResults source target =
     target\<lparr>processed := processed target + processed source,
            totalSizeReduction := totalSizeReduction target + totalSizeReduction source,
            errors := errors target
               @ map (\<lambda>e. \<lparr>err_file = err_file e, err_error = err_error e, err_worker = None\<rparr>)
                   (errors source),
            result_files := result_files target @ result_files source\<rparr>"

section \<open>Public interface: the checks of \<^verbatim>\<open>compress\<close> before any work\<close>

text \<open>
  A JavaScript string is a sequence of UTF-16 code units. \<open>utf16\<close> writes the code units
  of an ASCII text.
\<close>

type_synonym js_string = "16 word list"

definition utf16 :: "string \<Rightarrow> js_string" where
  "utf16 s = map (\<lambda>c. of_nat (of_char c)) s"






text \<open>\<^verbatim>\<open>\d\<close>: the ten ASCII digits.\<close>

definition is_digit :: "16 word \<Rightarrow> bool" where
  "is_digit c = (48 \<le> unat c \<and> unat c \<le> 57)"

text \<open>
  \<^verbatim>\<open>\s\<close>: the white space and line terminator code points of the language. These are
  tab, line feed, vertical tab, form feed, carriage return, space, no-break space
  (\<open>U+00A0\<close>), \<open>U+1680\<close>, \<open>U+2000\<close> to \<open>U+200A\<close>, \<open>U+2028\<close>, \<open>U+2029\<close>, \<open>U+202F\<close>,
  \<open>U+205F\<close>, \<open>U+3000\<close> and \<open>U+FEFF\<close>; each is a single code unit.
\<close>

definition is_space :: "16 word \<Rightarrow> bool" where
  "is_space c =
     ((9 \<le> unat c \<and> unat c \<le> 13) \<or> (8192 \<le> unat c \<and> unat c \<le> 8202)
      \<or> unat c \<in> set [32, 160, 5760, 8232, 8233, 8239, 8287, 12288, 65279])"

text \<open>
  Upper case of the ASCII letters. The pattern below is matched without the \<^verbatim>\<open>u\<close> flag:
  a code unit above 127 is never folded onto an ASCII letter, so the only texts that match
  \<^verbatim>\<open>B|KB|MB|GB\<close> under the \<^verbatim>\<open>i\<close> flag are the ASCII spellings in either case, and on
  those \<^verbatim>\<open>toUpperCase\<close> is this function.
\<close>

definition upper_unit :: "16 word \<Rightarrow> 16 word" where
  "upper_unit c = (if 97 \<le> unat c \<and> unat c \<le> 122 then c - 32 else c)"

definition toUpperCase :: "js_string \<Rightarrow> js_string" where
  "toUpperCase s = map upper_unit s"

text \<open>
  A match of \<^verbatim>\<open>/^(\d+(?:\.\d+)?)\s*(B|KB|MB|GB)?$/i\<close>: the two groups, the second
  \<open>None\<close> when it did not take part (\<^verbatim>\<open>undefined\<close>). The classes of the pattern do not
  overlap, so the match, when there is one, is the greedy one: all leading digits; a
  point and all digits after it when at least one digit follows the point; all white
  space; then a unit or nothing up to the end of the text.
\<close>

definition match_target_size :: "js_string \<Rightarrow> (js_string \<times> js_string option) option" where
  "match_target_size s =
     (let ds = takeWhile is_digit s; r1 = dropWhile is_digit s in
      if ds = [] then None
      else
        let fraction = (case r1 of
                          c # r \<Rightarrow> if c = 46 then takeWhile is_digit r else []
                        | [] \<Rightarrow> []);
            group1 = (if fraction = [] then ds else ds @ [46] @ fraction);
            r2 = dropWhile is_space (drop (length group1) s)
        in if r2 = [] then Some (group1, None)
           else if toUpperCase r2 \<in> set [utf16 ''B'', utf16 ''KB'', utf16 ''MB'', utf16 ''GB'']
           then Some (group1, Some r2)
           else None)"









section \<open>Fragmenter: splitting large images into bands\<close>

definition MIN_FRAGMENT_SIZE :: nat where
  "MIN_FRAGMENT_SIZE = 100 * 1024 * 1024"

definition MIN_FRAGMENTS :: int where
  "MIN_FRAGMENTS = 2"

text \<open>
  What the fragmenter calls and does not define: \<^verbatim>\<open>path.extname\<close>, \<^verbatim>\<open>fs.stat\<close> (the
  size), sharp's \<^verbatim>\<open>metadata\<close> (height and width, each possibly \<^verbatim>\<open>undefined\<close>) and sharp's
  \<^verbatim>\<open>extract({ left, top, width, height }).toBuffer()\<close>. A thrown error is \<open>Inl\<close>.
\<close>

record extract_region =
  region_left :: int
  region_top :: int
  region_width :: int
  region_height :: int

record fragmenter_env =
  fe_extname :: "string \<Rightarrow> string"
  fe_stat :: "string \<Rightarrow> string + nat"
  fe_metadata :: "string \<Rightarrow> string + (nat option \<times> nat option)"
  fe_extract :: "string \<Rightarrow> extract_region \<Rightarrow> string + buffer"

text \<open>
  The inner \<^verbatim>\<open>for (let i = 0; i < fragments; i++)\<close> loop, with the fragments pushed so
  far and, in order, the regions handed to \<^verbatim>\<open>extract\<close> so far. An extraction that throws
  ends the whole call.
\<close>

function band_loop ::
  "fragmenter_env \<Rightarrow> string \<Rightarrow> string \<Rightarrow> int \<Rightarrow> int \<Rightarrow> int \<Rightarrow> int \<Rightarrow> int \<Rightarrow> task list
     \<Rightarrow> extract_region list \<Rightarrow> (string + task list) \<times> extract_region list" where
  "band_loop env file e imageWidth imageHeight fragments fragmentHeight i pushed regions =
     (if i < fragments then
        let top = i * fragmentHeight;
            height = (if i = fragments - 1 then imageHeight - top else fragmentHeight);
            region = \<lparr>region_left = 0, region_top = top, region_width = imageWidth,
                      region_height = height\<rparr>
        in case fe_extract env file region of
             Inl err \<Rightarrow> (Inl err, regions @ [region])
           | Inr buffer \<Rightarrow>
               band_loop env file e imageWidth imageHeight fragments fragmentHeight (i + 1)
                 (pushed @ [Fragment \<lparr>frag_buffer = buffer, fragmentIndex = nat i,
                                      totalFragments = nat fragments, originalFile = file,
                                      frag_ext = e\<rparr>])
                 (regions @ [region])
      else (Inr pushed, regions))"
  by pat_completeness auto
termination
  by (relation "measure (\<lambda>(env, file, e, imageWidth, imageHeight, fragments, fragmentHeight, i,
        pushed, regions). nat (fragments - i))") auto

declare band_loop.simps [simp del]

text \<open>
  The body of the outer loop for one file: what it pushes to \<^verbatim>\<open>result\<close> and the regions
  it has extracted. \<^verbatim>\<open>Math.floor(imageHeight / fragments) || imageHeight\<close> takes the
  second operand when the quotient is zero.
\<close>

definition split_file ::
  "fragmenter_env \<Rightarrow> int \<Rightarrow> string \<Rightarrow> (string + task list) \<times> extract_region list" where
  "split_file env threadCount file =
     (let e = toLowerCase (fe_extname env file) in
      if e \<notin> set [''.jpg'', ''.jpeg'', ''.png'', ''.webp'', ''.avif'', ''.bmp'', ''.tiff'']
      then (Inr [WholeFile file], [])
      else
        case fe_stat env file of
          Inl err \<Rightarrow> (Inl err, [])
        | Inr fileSize \<Rightarrow>
            if fileSize < MIN_FRAGMENT_SIZE then (Inr [WholeFile file], [])
            else
              let fragments = max MIN_FRAGMENTS threadCount in
              (case fe_metadata env file of
                Inl err \<Rightarrow> (Inl err, [])
              | Inr (height, width) \<Rightarrow>
                  let imageHeight = (case height of None \<Rightarrow> 0 | Some h \<Rightarrow> int h);
                      imageWidth = (case width of None \<Rightarrow> 0 | Some w \<Rightarrow> int w)
                  in if imageHeight = 0 \<or> imageWidth = 0 then (Inr [WholeFile file], [])
                     else
                       let fragmentHeight =
                             (if imageHeight div fragments = 0 then imageHeight
                              else imageHeight div fragments)
                       in band_loop env file e imageWidth imageHeight fragments
                            fragmentHeight 0 [] []))"

text \<open>\<^verbatim>\<open>splitLargeImagesIntoFragments\<close>: the outer loop over the files.\<close>

fun splitLargeImagesIntoFragments ::
  "fragmenter_env \<Rightarrow> string list \<Rightarrow> int \<Rightarrow> string + task list" where
  "splitLargeImagesIntoFragments env [] threadCount = Inr []"
| "splitLargeImagesIntoFragments env (file # rest) threadCount =
     (case fst (split_file env threadCount file) of
        Inl err \<Rightarrow> Inl err
      | Inr pushed \<Rightarrow>
          (case splitLargeImagesIntoFragments env rest threadCount of
             Inl err \<Rightarrow> Inl err
           | Inr others \<Rightarrow> Inr (pushed @ others)))"

text \<open>
  A worker environment for examples: the image engine throws on \<^verbatim>\<open>a.jpg\<close> and
  compresses every other input from 100 to 40 bytes, writing \<^verbatim>\<open>out.jpg\<close>.
\<close>

definition demo_result :: "input_ref \<Rightarrow> compression_result" where
  "demo_result i =
     \<lparr>cr_inputFile = i, cr_outputFile = Some ''out.jpg'', cr_originalSize = 100,
      cr_compressedSize = 40, cr_buffer = None, cr_fragmentIndex = None,
      cr_totalFragments = None, cr_originalFile = None\<rparr>"

definition demo_env :: worker_env where
  "demo_env =
     \<lparr>imageCompress = (\<lambda>i. if i = InPath ''a.jpg'' then Inl ''encode failed''
                              else Inr (demo_result i)),
      videoCompress = (\<lambda>p. Inl ''no video engine''),
      elapsed = (\<lambda>t. 7),
      path_basename = (\<lambda>p. p),
      path_extname = (\<lambda>p. '''')\<rparr>"



text \<open>
  Fragmenter environments for examples: every file is a PNG of 200 MiB, \<open>w\<close> pixels wide
  and \<open>h\<close> pixels high. \<open>strict_extract\<close> does what an image library does with a region
  that is empty or not inside the image: it throws; otherwise it returns one byte per row.
\<close>

definition strict_extract :: "int \<Rightarrow> int \<Rightarrow> extract_region \<Rightarrow> string + buffer" where
  "strict_extract w h r =
     (if 0 \<le> region_left r \<and> 0 \<le> region_top r \<and> 0 < region_width r \<and> 0 < region_height r
         \<and> region_left r + region_width r \<le> w \<and> region_top r + region_height r \<le> h
      then Inr (replicate (nat (region_height r)) 0)
      else Inl ''extract_area: bad extract area'')"

definition png_env :: "nat \<Rightarrow> nat \<Rightarrow> fragmenter_env" where
  "png_env w h =
     \<lparr>fe_extname = (\<lambda>p. ''.png''),
      fe_stat = (\<lambda>p. Inr (200 * 1024 * 1024)),
      fe_metadata = (\<lambda>p. Inr (Some h, Some w)),
      fe_extract = (\<lambda>p. strict_extract (int w) (int h))\<rparr>"

text \<open>The same files with an extraction that accepts every region and returns no bytes.\<close>

definition lenient_env :: "nat \<Rightarrow> nat \<Rightarrow> fragmenter_env" where
  "lenient_env w h =
     \<lparr>fe_extname = (\<lambda>p. ''.png''),
      fe_stat = (\<lambda>p. Inr (200 * 1024 * 1024)),
      fe_metadata = (\<lambda>p. Inr (Some h, Some w)),
      fe_extract = (\<lambda>p r. Inr [])\<rparr>"

section \<open>Vocabulary of the statements\<close>

text \<open>
  A catalog entry of the extreme path that succeeded within the target: the strategy is
  in the catalog generated for the format, and encoding with it gave buffer \<open>b\<close> in
  \<open>t\<close> milliseconds, with \<open>b\<close> no longer than the target.
\<close>

definition under_budget ::
  "(strategy \<Rightarrow> string + buffer \<times> nat) \<Rightarrow> bool \<Rightarrow> string \<Rightarrow> nat \<Rightarrow> strategy \<Rightarrow> buffer \<Rightarrow> nat \<Rightarrow> bool"
  where
  "under_budget encodeStrategy keepDims format targetSize s b t =
     (s \<in> set (generateCompressionStrategies keepDims format)
      \<and> encodeStrategy s = Inr (b, t) \<and> length b \<le> targetSize)"

text \<open>
  For a chunk of tasks: whether an item's compression goes through, and the entries that
  the items which fail leave in the batch's error list, in the order of the chunk.
\<close>

definition succeeded :: "worker_env \<Rightarrow> task \<Rightarrow> bool" where
  "succeeded env file = (case compress_task env file of Inr r \<Rightarrow> True | Inl err \<Rightarrow> False)"

definition failed_entries :: "worker_env \<Rightarrow> nat \<Rightarrow> task list \<Rightarrow> error_entry list" where
  "failed_entries env wi fs =
     concat (map (\<lambda>file. case compress_task env file of
                     Inl err \<Rightarrow> [\<lparr>err_file = task_label env file, err_error = err,
                                  err_worker = Some wi\<rparr>]
                   | Inr r \<Rightarrow> []) fs)"


text \<open>
  The region of band \<open>k\<close> of \<open>n\<close> for an image \<open>W\<close> wide and \<open>H\<close> high, with band height
  \<open>fh\<close>, as the inner loop of the fragmenter computes it.
\<close>

definition band_region :: "int \<Rightarrow> int \<Rightarrow> int \<Rightarrow> int \<Rightarrow> int \<Rightarrow> extract_region" where
  "band_region W H n fh k =
     \<lparr>region_left = 0, region_top = k * fh, region_width = W,
      region_height = (if k = n - 1 then H - k * fh else fh)\<rparr>"

text \<open>The rows of a region: from its top, as many as its height.\<close>

definition region_rows :: "extract_region \<Rightarrow> int set" where
  "region_rows r = {region_top r ..< region_top r + region_height r}"

text \<open>
  The outcome of the race of the candidate formats when every encode could be started:
  one entry per candidate, in order, with what its promise settled to.
\<close>

definition race_results :: "starter \<Rightarrow> bool \<Rightarrow> int \<Rightarrow> format_result list" where
  "race_results start hasAlpha quality =
     map (\<lambda>(f, ext, opts). FormatResult f ext (awaited start f opts))
       (format_candidates hasAlpha quality)"

text \<open>Whether starting the encode of a candidate throws.\<close>

definition start_throws :: "starter \<Rightarrow> string \<times> string \<times> js_object \<Rightarrow> bool" where
  "start_throws start c =
     (case c of (f, ext, opts) \<Rightarrow>
        (case start f opts of Throws err \<Rightarrow> True | Rejects err \<Rightarrow> False
         | Resolves buffer \<Rightarrow> False))"
chapter \<open>Properties\<close>

section \<open>Chunking partitions the task list\<close>

text \<open>\<open>ceil_div\<close> is the ceiling of the quotient, for a positive divisor.\<close>

lemma ceil_div_ceiling:
  assumes b: "0 < b"
  shows "int (ceil_div a b) = \<lceil>real a / real b\<rceil>"
proof -
  define c where "c = (a + b - 1) div b"
  have lo: "c * b \<le> a + b - 1" unfolding c_def by simp
  have "(a + b - 1) mod b < b" using b by simp
  moreover have "c * b + (a + b - 1) mod b = a + b - 1" unfolding c_def by simp
  ultimately have hi: "a + b - 1 < c * b + b" by linarith
  from hi b have up: "a \<le> c * b" by linarith
  from lo b have dn: "c * b < a + b" by linarith
  have rb: "0 < real b" using b by simp
  have "real a \<le> real (c * b)" using up by (simp only: of_nat_le_iff)
  then have u: "real a / real b \<le> real c" using rb by (simp add: divide_le_eq)
  have "real (c * b) < real (a + b)" using dn by (simp only: of_nat_less_iff)
  then have "(real c - 1) * real b < real a" by (simp add: algebra_simps)
  then have l: "real c - 1 < real a / real b" using rb by (simp add: less_divide_eq)
  have "\<lceil>real a / real b\<rceil> = int c"
    by (rule ceiling_unique) (use l u in simp_all)
  then show ?thesis by (simp add: ceil_div_def c_def)
qed

lemma ceil_div_cover: "0 < b \<Longrightarrow> a \<le> b * ceil_div a b"
proof -
  assume b: "0 < b"
  have "(a + b - 1) mod b < b" using b by simp
  moreover have "a + b - 1 = b * ((a + b - 1) div b) + (a + b - 1) mod b" by simp
  ultimately show ?thesis unfolding ceil_div_def using b by linarith
qed

lemma chunk_loop_stop:
  "\<not> (i < tc \<and> i * w < length fs) \<Longrightarrow> chunk_loop fs tc w i cs = cs"
  by (subst chunk_loop.simps) auto

lemma chunk_loop_step:
  "i < tc \<Longrightarrow> i * w < length fs \<Longrightarrow>
   chunk_loop fs tc w i cs =
     chunk_loop fs tc w (i + 1)
       (if take w (drop (i * w) fs) \<noteq> []
        then cs @ [\<lparr>files = take w (drop (i * w) fs), workerIndex = i\<rparr>]
        else cs)"
  by (subst chunk_loop.simps) (simp add: Let_def slice_def min_def)

text \<open>
  The loop appends, in order, the next \<open>w\<close> tasks at each round: after it, the chunks
  built hold what they held before, followed by the tasks from position \<open>i * w\<close> on, up to
  \<open>(tc - i) * w\<close> of them.
\<close>

lemma chunk_loop_concat:
  "concat (map files (chunk_loop fs tc w i cs)) =
     concat (map files cs) @ take ((tc - i) * w) (drop (i * w) fs)"
proof (induction "tc - i" arbitrary: i cs)
  case 0
  then show ?case by (simp add: chunk_loop_stop)
next
  case (Suc n)
  then have i: "i < tc" and n: "n = tc - (i + 1)" by simp_all
  show ?case
  proof (cases "i * w < length fs")
    case True
    define cs' where "cs' =
      (if take w (drop (i * w) fs) \<noteq> []
       then cs @ [\<lparr>files = take w (drop (i * w) fs), workerIndex = i\<rparr>] else cs)"
    have cs': "concat (map files cs') = concat (map files cs) @ take w (drop (i * w) fs)"
      by (simp add: cs'_def)
    have "drop ((i + 1) * w) fs = drop w (drop (i * w) fs)"
      by (simp add: algebra_simps)
    moreover have "(tc - i) * w = w + (tc - (i + 1)) * w"
    proof -
      have "tc - i = Suc (tc - (i + 1))" using i by simp
      then show ?thesis by (simp only: mult_Suc)
    qed
    ultimately have pieces: "take ((tc - i) * w) (drop (i * w) fs) =
        take w (drop (i * w) fs) @ take ((tc - (i + 1)) * w) (drop ((i + 1) * w) fs)"
      by (simp only: take_add)
    have "concat (map files (chunk_loop fs tc w i cs)) =
        concat (map files (chunk_loop fs tc w (i + 1) cs'))"
      using i True by (simp only: chunk_loop_step cs'_def)
    also have "\<dots> = concat (map files cs') @
        take ((tc - (i + 1)) * w) (drop ((i + 1) * w) fs)"
      by (rule Suc.hyps(1)[OF n])
    also have "\<dots> = concat (map files cs) @ take ((tc - i) * w) (drop (i * w) fs)"
      by (simp only: pieces cs' append_assoc)
    finally show ?thesis .
  next
    case False
    then show ?thesis by (simp add: chunk_loop_stop)
  qed
qed

lemma chunk_loop_length:
  "length (chunk_loop fs tc w i cs) \<le> length cs + (tc - i)"
proof (induction "tc - i" arbitrary: i cs)
  case 0
  then show ?case by (simp add: chunk_loop_stop)
next
  case (Suc n)
  then have i: "i < tc" and n: "n = tc - (i + 1)" by simp_all
  show ?case
  proof (cases "i * w < length fs")
    case True
    define cs' where "cs' =
      (if take w (drop (i * w) fs) \<noteq> []
       then cs @ [\<lparr>files = take w (drop (i * w) fs), workerIndex = i\<rparr>] else cs)"
    have "length (chunk_loop fs tc w (i + 1) cs') \<le> length cs' + (tc - (i + 1))"
      by (rule Suc.hyps(1)[OF n])
    moreover have "length cs' \<le> length cs + 1"
      by (simp add: cs'_def)
    moreover have "chunk_loop fs tc w i cs = chunk_loop fs tc w (i + 1) cs'"
      using i True by (simp only: chunk_loop_step cs'_def)
    ultimately show ?thesis
      using i by simp
  next
    case False
    then show ?thesis by (simp add: chunk_loop_stop)
  qed
qed

lemma chunk_loop_nonempty:
  "\<forall>c \<in> set cs. files c \<noteq> [] \<Longrightarrow> \<forall>c \<in> set (chunk_loop fs tc w i cs). files c \<noteq> []"
proof (induction "tc - i" arbitrary: i cs)
  case 0
  then show ?case by (simp add: chunk_loop_stop)
next
  case (Suc n)
  then have i: "i < tc" and n: "n = tc - (i + 1)" by simp_all
  show ?case
  proof (cases "i * w < length fs")
    case True
    define cs' where "cs' =
      (if take w (drop (i * w) fs) \<noteq> []
       then cs @ [\<lparr>files = take w (drop (i * w) fs), workerIndex = i\<rparr>] else cs)"
    have "\<forall>c \<in> set cs'. files c \<noteq> []"
      using Suc.prems by (auto simp: cs'_def)
    then have "\<forall>c \<in> set (chunk_loop fs tc w (i + 1) cs'). files c \<noteq> []"
      by (rule Suc.hyps(1)[OF n])
    moreover have "chunk_loop fs tc w i cs = chunk_loop fs tc w (i + 1) cs'"
      using i True by (simp only: chunk_loop_step cs'_def)
    ultimately show ?thesis by simp
  next
    case False
    with Suc.prems show ?thesis by (simp add: chunk_loop_stop)
  qed
qed

text \<open>
  A chunk shorter than \<open>w\<close> is cut only when the list is exhausted, so the loop stops
  right after it: every chunk but the last has exactly \<open>w\<close> tasks.
\<close>

lemma chunk_loop_full:
  "\<forall>c \<in> set cs. length (files c) = w \<Longrightarrow>
     \<forall>c \<in> set (butlast (chunk_loop fs tc w i cs)). length (files c) = w"
proof (induction "tc - i" arbitrary: i cs)
  case 0
  then show ?case by (auto simp: chunk_loop_stop dest: in_set_butlastD)
next
  case (Suc n)
  then have i: "i < tc" and n: "n = tc - (i + 1)" by simp_all
  show ?case
  proof (cases "i * w < length fs")
    case True
    define cs' where "cs' =
      (if take w (drop (i * w) fs) \<noteq> []
       then cs @ [\<lparr>files = take w (drop (i * w) fs), workerIndex = i\<rparr>] else cs)"
    have step: "chunk_loop fs tc w i cs = chunk_loop fs tc w (i + 1) cs'"
      using i True by (simp only: chunk_loop_step cs'_def)
    show ?thesis
    proof (cases "length (take w (drop (i * w) fs)) = w")
      case full: True
      then have "\<forall>c \<in> set cs'. length (files c) = w"
        using Suc.prems by (auto simp: cs'_def)
      then have "\<forall>c \<in> set (butlast (chunk_loop fs tc w (i + 1) cs')). length (files c) = w"
        by (rule Suc.hyps(1)[OF n])
      then show ?thesis by (simp only: step)
    next
      case short: False
      then have "length fs \<le> (i + 1) * w"
        by (simp add: min_def split: if_splits)
      then have stop: "chunk_loop fs tc w (i + 1) cs' = cs'"
        by (intro chunk_loop_stop) simp
      have "set (butlast cs') \<subseteq> set cs"
        by (auto simp: cs'_def dest: in_set_butlastD)
      then have "\<forall>c \<in> set (butlast cs'). length (files c) = w"
        using Suc.prems by blast
      then show ?thesis by (simp only: step stop)
    qed
  next
    case False
    with Suc.prems show ?thesis by (auto simp: chunk_loop_stop dest: in_set_butlastD)
  qed
qed

text \<open>
  Claim C3. For every task list and every thread count of at least 1 (the configured
  count is clamped to 2..32), the chunks of \<^verbatim>\<open>chunkFiles\<close>, concatenated in order, are
  the input list; there are at most \<open>threadCount\<close> chunks; no chunk is empty; and every
  chunk except possibly the last holds \<open>ceil(totalTasks / threadCount)\<close> tasks.
\<close>

theorem chunkFiles_partition:
  assumes "1 \<le> threadCount"
  shows "concat (map files (chunkFiles threadCount fs)) = fs
    \<and> length (chunkFiles threadCount fs) \<le> threadCount
    \<and> (\<forall>c \<in> set (chunkFiles threadCount fs). files c \<noteq> [])
    \<and> (\<forall>c \<in> set (butlast (chunkFiles threadCount fs)).
           length (files c) = ceil_div (length fs) threadCount)"
proof (intro conjI)
  have "length fs \<le> threadCount * ceil_div (length fs) threadCount"
    using assms by (intro ceil_div_cover) simp
  then show "concat (map files (chunkFiles threadCount fs)) = fs"
    by (simp add: chunkFiles_def chunk_loop_concat)
  show "length (chunkFiles threadCount fs) \<le> threadCount"
    using chunk_loop_length[of fs threadCount _ 0 "[]"] by (simp add: chunkFiles_def)
  show "\<forall>c \<in> set (chunkFiles threadCount fs). files c \<noteq> []"
    unfolding chunkFiles_def by (rule chunk_loop_nonempty) simp
  show "\<forall>c \<in> set (butlast (chunkFiles threadCount fs)).
           length (files c) = ceil_div (length fs) threadCount"
    unfolding chunkFiles_def by (rule chunk_loop_full) simp
qed

theorem chunkFiles_partition_witness:
  "1 \<le> (3::nat)
   \<and> chunkFiles 3 ''abcdefg'' =
       [\<lparr>files = ''abc'', workerIndex = 0\<rparr>, \<lparr>files = ''def'', workerIndex = 1\<rparr>,
        \<lparr>files = ''g'', workerIndex = 2\<rparr>]
   \<and> concat (map files (chunkFiles 3 ''abcdefg'')) = ''abcdefg''
   \<and> length (chunkFiles 3 ''abcdefg'') \<le> 3
   \<and> list_all (\<lambda>c. files c \<noteq> []) (chunkFiles 3 ''abcdefg'')
   \<and> list_all (\<lambda>c. length (files c) = ceil_div (length ''abcdefg'') 3)
         (butlast (chunkFiles 3 ''abcdefg''))"
proof -
  have "chunkFiles 3 ''abcdefg'' =
       [\<lparr>files = ''abc'', workerIndex = 0\<rparr>, \<lparr>files = ''def'', workerIndex = 1\<rparr>,
        \<lparr>files = ''g'', workerIndex = 2\<rparr>]"
    by (simp add: chunkFiles_def ceil_div_def chunk_loop.simps slice_def)
  then show ?thesis
    using chunkFiles_partition[of 3 "''abcdefg''"] by (simp add: list_all_iff)
qed

section \<open>Binary search on quality\<close>

lemma bs_loop_stop:
  "\<not> (minQ \<le> maxQ \<and> attempts < maxAttempts) \<Longrightarrow>
   bs_loop sharp this format t minQ maxQ best attempts tested = (Inr best, tested)"
  by (subst bs_loop.simps) auto

lemma bs_loop_err:
  "minQ \<le> maxQ \<Longrightarrow> attempts < maxAttempts \<Longrightarrow>
   compressWithQuality sharp this format ((minQ + maxQ) div 2) = Inl err \<Longrightarrow>
   bs_loop sharp this format t minQ maxQ best attempts tested =
     (Inl err, tested @ [(minQ + maxQ) div 2])"
  by (subst bs_loop.simps) (simp add: Let_def)

lemma bs_loop_fit:
  "minQ \<le> maxQ \<Longrightarrow> attempts < maxAttempts \<Longrightarrow>
   compressWithQuality sharp this format ((minQ + maxQ) div 2) = Inr buffer \<Longrightarrow>
   length buffer \<le> t \<Longrightarrow>
   bs_loop sharp this format t minQ maxQ best attempts tested =
     bs_loop sharp this format t ((minQ + maxQ) div 2 + 1) maxQ (Some buffer)
       (attempts + 1) (tested @ [(minQ + maxQ) div 2])"
  by (subst bs_loop.simps) (simp add: Let_def)

lemma bs_loop_nofit:
  "minQ \<le> maxQ \<Longrightarrow> attempts < maxAttempts \<Longrightarrow>
   compressWithQuality sharp this format ((minQ + maxQ) div 2) = Inr buffer \<Longrightarrow>
   \<not> length buffer \<le> t \<Longrightarrow>
   bs_loop sharp this format t minQ maxQ best attempts tested =
     bs_loop sharp this format t minQ ((minQ + maxQ) div 2 - 1) best
       (attempts + 1) (tested @ [(minQ + maxQ) div 2])"
  by (subst bs_loop.simps) (simp add: Let_def)

lemma bs_loop_tested_range:
  "5 \<le> minQ \<Longrightarrow> maxQ \<le> 95 \<Longrightarrow> \<forall>q \<in> set tested. 5 \<le> q \<and> q \<le> 95 \<Longrightarrow>
   \<forall>q \<in> set (snd (bs_loop sharp this format t minQ maxQ best attempts tested)). 5 \<le> q \<and> q \<le> 95"
proof (induction "maxAttempts - attempts" arbitrary: minQ maxQ best attempts tested)
  case 0
  then show ?case by (simp add: bs_loop_stop)
next
  case (Suc n)
  then have a: "attempts < maxAttempts" and n: "n = maxAttempts - (attempts + 1)" by simp_all
  show ?case
  proof (cases "minQ \<le> maxQ")
    case False
    with Suc.prems show ?thesis by (simp add: bs_loop_stop)
  next
    case True
    define q where "q = (minQ + maxQ) div 2"
    have q: "minQ \<le> q" "q \<le> maxQ" using True by (simp_all add: q_def)
    then have range: "\<forall>x \<in> set (tested @ [q]). 5 \<le> x \<and> x \<le> 95"
      using Suc.prems by auto
    show ?thesis
    proof (cases "compressWithQuality sharp this format q")
      case (Inl err)
      then show ?thesis
        using True a range bs_loop_err[of minQ maxQ attempts sharp this format err t best tested]
        by (simp add: q_def)
    next
      case (Inr buffer)
      show ?thesis
      proof (cases "length buffer \<le> t")
        case fit: True
        have "\<forall>x \<in> set (snd (bs_loop sharp this format t (q + 1) maxQ (Some buffer)
            (attempts + 1) (tested @ [q]))). 5 \<le> x \<and> x \<le> 95"
          using q Suc.prems(1,2) by (intro Suc.hyps(1)[OF n] range) simp_all
        then show ?thesis
          using True a Inr fit by (simp add: bs_loop_fit q_def)
      next
        case nofit: False
        have "\<forall>x \<in> set (snd (bs_loop sharp this format t minQ (q - 1) best
            (attempts + 1) (tested @ [q]))). 5 \<le> x \<and> x \<le> 95"
          using q Suc.prems(1,2) by (intro Suc.hyps(1)[OF n] range) simp_all
        then show ?thesis
          using True a Inr nofit by (simp add: bs_loop_nofit q_def)
      qed
    qed
  qed
qed

text \<open>
  The search with an encoder that does not throw on \<open>5..95\<close> and whose output size is
  non-decreasing in quality there. The invariant: every quality below \<open>minQ\<close> fits the
  target and every quality above \<open>maxQ\<close> does not; the width of the interval halves with
  every round, so the loop ends by exhausting the interval, after at most seven rounds.
\<close>

lemma bs_loop_search:
  fixes enc :: "int \<Rightarrow> buffer"
  assumes enc: "\<And>q. 5 \<le> q \<Longrightarrow> q \<le> 95 \<Longrightarrow> compressWithQuality sharp this format q = Inr (enc q)"
      and mono: "\<And>q q'. 5 \<le> q \<Longrightarrow> q \<le> q' \<Longrightarrow> q' \<le> 95 \<Longrightarrow> length (enc q) \<le> length (enc q')"
      and bounds: "5 \<le> minQ" "maxQ \<le> 95" "minQ \<le> maxQ + 1"
      and count: "length tested = attempts" "attempts \<le> 7"
      and width: "(maxQ - minQ + 1) * 2 ^ attempts < 128"
      and low: "\<forall>q. 5 \<le> q \<and> q < minQ \<longrightarrow> length (enc q) \<le> t"
      and high: "\<forall>q. maxQ < q \<and> q \<le> 95 \<longrightarrow> \<not> length (enc q) \<le> t"
      and best: "best = (if minQ = 5 then None else Some (enc (minQ - 1)))"
      and last: "minQ \<noteq> 5 \<longrightarrow> minQ - 1 \<in> set tested"
      and top: "maxQ \<noteq> 95 \<longrightarrow> maxQ + 1 \<in> set tested"
  shows "\<exists>m rest.
      bs_loop sharp this format t minQ maxQ best attempts tested =
        (Inr (if m = 5 then None else Some (enc (m - 1))), tested @ rest)
    \<and> length (tested @ rest) \<le> 7 \<and> 5 \<le> m \<and> m \<le> 96
    \<and> (\<forall>q. 5 \<le> q \<and> q < m \<longrightarrow> length (enc q) \<le> t)
    \<and> (\<forall>q. m \<le> q \<and> q \<le> 95 \<longrightarrow> \<not> length (enc q) \<le> t)
    \<and> (m \<noteq> 5 \<longrightarrow> m - 1 \<in> set (tested @ rest))
    \<and> (m \<noteq> 96 \<longrightarrow> m \<in> set (tested @ rest))
    \<and> (minQ \<le> maxQ \<longrightarrow> rest \<noteq> [] \<and> hd rest = (minQ + maxQ) div 2)"
  using bounds count width low high best last top
proof (induction "maxAttempts - attempts" arbitrary: minQ maxQ best attempts tested)
  case 0
  then show ?case by (simp add: maxAttempts_def)
next
  case (Suc n)
  then have n: "n = maxAttempts - (attempts + 1)" by simp
  show ?case
  proof (cases "minQ \<le> maxQ")
    case False
    with Suc.prems(3) have eq: "minQ = maxQ + 1" by simp
    have run: "bs_loop sharp this format t minQ maxQ best attempts tested = (Inr best, tested)"
      using False by (simp add: bs_loop_stop)
    have hi: "\<forall>q. minQ \<le> q \<and> q \<le> 95 \<longrightarrow> \<not> length (enc q) \<le> t"
      using Suc.prems(8) eq by simp
    have tp: "minQ \<noteq> 96 \<longrightarrow> minQ \<in> set tested"
      using Suc.prems(11) eq by simp
    show ?thesis
      using Suc.prems(1,2,4,5,7,9,10) eq run hi tp False
      by (intro exI[of _ minQ] exI[of _ "[]"]) simp
  next
    case True
    define q where "q = (minQ + maxQ) div 2"
    have q: "minQ \<le> q" "q \<le> maxQ" using True by (simp_all add: q_def)
    have qr: "5 \<le> q" "q \<le> 95" using q Suc.prems(1,2) by simp_all
    have twice: "2 * (maxQ - q) \<le> maxQ - minQ + 1" "2 * (q - minQ) \<le> maxQ - minQ + 1"
      by (simp_all add: q_def)
    have "(2::int) ^ attempts \<le> (maxQ - minQ + 1) * 2 ^ attempts"
      using mult_right_mono[of 1 "maxQ - minQ + 1" "2 ^ attempts"] True by simp
    with Suc.prems(6) have lt: "(2::int) ^ attempts < 128" by linarith
    have a7: "attempts < 7"
    proof (rule ccontr)
      assume "\<not> attempts < 7"
      then have "(2::int) ^ 7 \<le> 2 ^ attempts" by (intro power_increasing) simp_all
      with lt show False by simp
    qed
    then have a: "attempts < maxAttempts" by (simp add: maxAttempts_def)
    have shrink: "w * 2 ^ (attempts + 1) < 128" if "2 * w \<le> maxQ - minQ + 1" for w :: int
    proof -
      have "(2 * w) * 2 ^ attempts \<le> (maxQ - minQ + 1) * 2 ^ attempts"
        using that by (intro mult_right_mono) simp_all
      with Suc.prems(6) have "(2 * w) * 2 ^ attempts < 128" by linarith
      moreover have "w * 2 ^ (attempts + 1) = (2 * w) * 2 ^ attempts" by simp
      ultimately show ?thesis by (simp only:)
    qed
    have encq: "compressWithQuality sharp this format ((minQ + maxQ) div 2) = Inr (enc q)"
      using enc [OF qr] by (simp add: q_def)
    show ?thesis
    proof (cases "length (enc q) \<le> t")
      case fit: True
      have step: "bs_loop sharp this format t minQ maxQ best attempts tested =
          bs_loop sharp this format t (q + 1) maxQ (Some (enc q)) (attempts + 1) (tested @ [q])"
        using True a fit encq by (simp add: bs_loop_fit q_def)
      have low': "\<forall>x. 5 \<le> x \<and> x < q + 1 \<longrightarrow> length (enc x) \<le> t"
      proof (intro allI impI)
        fix x assume x: "5 \<le> x \<and> x < q + 1"
        then have "length (enc x) \<le> length (enc q)" using qr by (intro mono) simp_all
        with fit show "length (enc x) \<le> t" by simp
      qed
      have "\<exists>m rest.
          bs_loop sharp this format t (q + 1) maxQ (Some (enc q)) (attempts + 1) (tested @ [q]) =
            (Inr (if m = 5 then None else Some (enc (m - 1))), (tested @ [q]) @ rest)
        \<and> length ((tested @ [q]) @ rest) \<le> 7 \<and> 5 \<le> m \<and> m \<le> 96
        \<and> (\<forall>q. 5 \<le> q \<and> q < m \<longrightarrow> length (enc q) \<le> t)
        \<and> (\<forall>q. m \<le> q \<and> q \<le> 95 \<longrightarrow> \<not> length (enc q) \<le> t)
        \<and> (m \<noteq> 5 \<longrightarrow> m - 1 \<in> set ((tested @ [q]) @ rest))
        \<and> (m \<noteq> 96 \<longrightarrow> m \<in> set ((tested @ [q]) @ rest))
        \<and> (q + 1 \<le> maxQ \<longrightarrow> rest \<noteq> [] \<and> hd rest = (q + 1 + maxQ) div 2)"
      proof (rule Suc.hyps(1)[OF n])
        show "5 \<le> q + 1" using qr by simp
        show "maxQ \<le> 95" by (rule Suc.prems(2))
        show "q + 1 \<le> maxQ + 1" using q by simp
        show "length (tested @ [q]) = attempts + 1" using Suc.prems(4) by simp
        show "attempts + 1 \<le> 7" using a7 by simp
        show "(maxQ - (q + 1) + 1) * 2 ^ (attempts + 1) < 128"
          using shrink[OF twice(1)] by simp
        show "\<forall>x. 5 \<le> x \<and> x < q + 1 \<longrightarrow> length (enc x) \<le> t" by (rule low')
        show "\<forall>q. maxQ < q \<and> q \<le> 95 \<longrightarrow> \<not> length (enc q) \<le> t" by (rule Suc.prems(8))
        show "Some (enc q) = (if q + 1 = 5 then None else Some (enc (q + 1 - 1)))"
          using qr by simp
        show "q + 1 \<noteq> 5 \<longrightarrow> q + 1 - 1 \<in> set (tested @ [q])" by simp
        show "maxQ \<noteq> 95 \<longrightarrow> maxQ + 1 \<in> set (tested @ [q])" using Suc.prems(11) by simp
      qed
      then obtain m rest where r:
          "bs_loop sharp this format t (q + 1) maxQ (Some (enc q)) (attempts + 1) (tested @ [q]) =
            (Inr (if m = 5 then None else Some (enc (m - 1))), tested @ (q # rest))"
          "length (tested @ (q # rest)) \<le> 7" "5 \<le> m" "m \<le> 96"
          "\<forall>q. 5 \<le> q \<and> q < m \<longrightarrow> length (enc q) \<le> t"
          "\<forall>q. m \<le> q \<and> q \<le> 95 \<longrightarrow> \<not> length (enc q) \<le> t"
          "m \<noteq> 5 \<longrightarrow> m - 1 \<in> set (tested @ (q # rest))"
          "m \<noteq> 96 \<longrightarrow> m \<in> set (tested @ (q # rest))"
        by auto
      have hd: "minQ \<le> maxQ \<longrightarrow> q # rest \<noteq> [] \<and> hd (q # rest) = (minQ + maxQ) div 2"
        by (simp add: q_def)
      from r hd show ?thesis
        unfolding step by (intro exI[of _ m] exI[of _ "q # rest"] conjI)
    next
      case nofit: False
      have step: "bs_loop sharp this format t minQ maxQ best attempts tested =
          bs_loop sharp this format t minQ (q - 1) best (attempts + 1) (tested @ [q])"
        using True a nofit encq by (simp add: bs_loop_nofit q_def)
      have high': "\<forall>x. q - 1 < x \<and> x \<le> 95 \<longrightarrow> \<not> length (enc x) \<le> t"
      proof (intro allI impI)
        fix x assume x: "q - 1 < x \<and> x \<le> 95"
        then have "length (enc q) \<le> length (enc x)" using qr by (intro mono) simp_all
        with nofit show "\<not> length (enc x) \<le> t" by simp
      qed
      have "\<exists>m rest.
          bs_loop sharp this format t minQ (q - 1) best (attempts + 1) (tested @ [q]) =
            (Inr (if m = 5 then None else Some (enc (m - 1))), (tested @ [q]) @ rest)
        \<and> length ((tested @ [q]) @ rest) \<le> 7 \<and> 5 \<le> m \<and> m \<le> 96
        \<and> (\<forall>q. 5 \<le> q \<and> q < m \<longrightarrow> length (enc q) \<le> t)
        \<and> (\<forall>q. m \<le> q \<and> q \<le> 95 \<longrightarrow> \<not> length (enc q) \<le> t)
        \<and> (m \<noteq> 5 \<longrightarrow> m - 1 \<in> set ((tested @ [q]) @ rest))
        \<and> (m \<noteq> 96 \<longrightarrow> m \<in> set ((tested @ [q]) @ rest))
        \<and> (minQ \<le> q - 1 \<longrightarrow> rest \<noteq> [] \<and> hd rest = (minQ + (q - 1)) div 2)"
      proof (rule Suc.hyps(1)[OF n])
        show "5 \<le> minQ" by (rule Suc.prems(1))
        show "q - 1 \<le> 95" using qr by simp
        show "minQ \<le> q - 1 + 1" using q by simp
        show "length (tested @ [q]) = attempts + 1" using Suc.prems(4) by simp
        show "attempts + 1 \<le> 7" using a7 by simp
        show "(q - 1 - minQ + 1) * 2 ^ (attempts + 1) < 128"
          using shrink[OF twice(2)] by simp
        show "\<forall>q. 5 \<le> q \<and> q < minQ \<longrightarrow> length (enc q) \<le> t" by (rule Suc.prems(7))
        show "\<forall>x. q - 1 < x \<and> x \<le> 95 \<longrightarrow> \<not> length (enc x) \<le> t" by (rule high')
        show "best = (if minQ = 5 then None else Some (enc (minQ - 1)))" by (rule Suc.prems(9))
        show "minQ \<noteq> 5 \<longrightarrow> minQ - 1 \<in> set (tested @ [q])" using Suc.prems(10) by simp
        show "q - 1 \<noteq> 95 \<longrightarrow> q - 1 + 1 \<in> set (tested @ [q])" by simp
      qed
      then obtain m rest where r:
          "bs_loop sharp this format t minQ (q - 1) best (attempts + 1) (tested @ [q]) =
            (Inr (if m = 5 then None else Some (enc (m - 1))), tested @ (q # rest))"
          "length (tested @ (q # rest)) \<le> 7" "5 \<le> m" "m \<le> 96"
          "\<forall>q. 5 \<le> q \<and> q < m \<longrightarrow> length (enc q) \<le> t"
          "\<forall>q. m \<le> q \<and> q \<le> 95 \<longrightarrow> \<not> length (enc q) \<le> t"
          "m \<noteq> 5 \<longrightarrow> m - 1 \<in> set (tested @ (q # rest))"
          "m \<noteq> 96 \<longrightarrow> m \<in> set (tested @ (q # rest))"
        by auto
      have hd: "minQ \<le> maxQ \<longrightarrow> q # rest \<noteq> [] \<and> hd (q # rest) = (minQ + maxQ) div 2"
        by (simp add: q_def)
      from r hd show ?thesis
        unfolding step by (intro exI[of _ m] exI[of _ "q # rest"] conjI)
    qed
  qed
qed

text \<open>
  The whole search from \<open>[5, 95]\<close>, for such an encoder: the qualities tested start with
  50, and the outcome is the encode at the largest quality of \<open>5..95\<close> that fits the
  target, which was tested; or no quality of \<open>5..95\<close> fits, quality 5 was tested, and
  there is no best buffer.
\<close>

lemma bs_loop_from_full_range:
  fixes enc :: "int \<Rightarrow> buffer"
  assumes enc: "\<And>q. 5 \<le> q \<Longrightarrow> q \<le> 95 \<Longrightarrow> compressWithQuality sharp this format q = Inr (enc q)"
      and mono: "\<And>q q'. 5 \<le> q \<Longrightarrow> q \<le> q' \<Longrightarrow> q' \<le> 95 \<Longrightarrow> length (enc q) \<le> length (enc q')"
  shows "\<exists>best tested.
      bs_loop sharp this format t 5 95 None 0 [] = (Inr best, tested)
    \<and> tested \<noteq> [] \<and> hd tested = 50 \<and> length tested \<le> 7
    \<and> ((\<exists>q. q \<in> set tested \<and> 5 \<le> q \<and> q \<le> 95 \<and> best = Some (enc q) \<and> length (enc q) \<le> t
            \<and> (\<forall>q'. 5 \<le> q' \<and> q' \<le> 95 \<and> length (enc q') \<le> t \<longrightarrow> q' \<le> q))
       \<or> (best = None \<and> 5 \<in> set tested
            \<and> (\<forall>q. 5 \<le> q \<and> q \<le> 95 \<longrightarrow> \<not> length (enc q) \<le> t)))"
proof -
  obtain m rest where
        loop: "bs_loop sharp this format t 5 95 None 0 [] =
                (Inr (if m = 5 then None else Some (enc (m - 1))), [] @ rest)"
    and len: "length ([] @ rest) \<le> 7"
    and m: "5 \<le> m" "m \<le> 96"
    and low: "\<forall>q. 5 \<le> q \<and> q < m \<longrightarrow> length (enc q) \<le> t"
    and high: "\<forall>q. m \<le> q \<and> q \<le> 95 \<longrightarrow> \<not> length (enc q) \<le> t"
    and last: "m \<noteq> 5 \<longrightarrow> m - 1 \<in> set ([] @ rest)"
    and top: "m \<noteq> 96 \<longrightarrow> m \<in> set ([] @ rest)"
    and first: "(5::int) \<le> 95 \<longrightarrow> rest \<noteq> [] \<and> hd rest = (5 + 95) div 2"
    using bs_loop_search[OF enc mono, of 5 95 "[]" 0 t None] by auto
  from first have ne: "rest \<noteq> []" and hd: "hd rest = 50" by simp_all
  show ?thesis
  proof (cases "m = 5")
    case True
    have "5 \<in> set rest" using top True by simp
    moreover have "\<forall>q. 5 \<le> q \<and> q \<le> 95 \<longrightarrow> \<not> length (enc q) \<le> t"
      using high True by simp
    ultimately show ?thesis
      using loop len ne hd True by (intro exI[of _ None] exI[of _ rest]) simp
  next
    case False
    have fit: "length (enc (m - 1)) \<le> t" using low m False by simp
    have mx: "\<forall>q'. 5 \<le> q' \<and> q' \<le> 95 \<and> length (enc q') \<le> t \<longrightarrow> q' \<le> m - 1"
    proof (intro allI impI)
      fix q' assume q': "5 \<le> q' \<and> q' \<le> 95 \<and> length (enc q') \<le> t"
      then have "\<not> m \<le> q'" using high by blast
      then show "q' \<le> m - 1" by simp
    qed
    have mem: "m - 1 \<in> set rest" using last False by simp
    have rng: "5 \<le> m - 1" "m - 1 \<le> 95" using m False by simp_all
    have loop': "bs_loop sharp this format t 5 95 None 0 [] = (Inr (Some (enc (m - 1))), rest)"
      using loop False by simp
    have "\<exists>q. q \<in> set rest \<and> 5 \<le> q \<and> q \<le> 95 \<and> Some (enc (m - 1)) = Some (enc q)
            \<and> length (enc q) \<le> t
            \<and> (\<forall>q'. 5 \<le> q' \<and> q' \<le> 95 \<and> length (enc q') \<le> t \<longrightarrow> q' \<le> q)"
      using mem rng fit mx by (intro exI[of _ "m - 1"] conjI) simp_all
    then show ?thesis
      using loop' len ne hd
      by (intro exI[of _ "Some (enc (m - 1))"] exI[of _ rest] conjI disjI1) simp_all
  qed
qed

text \<open>
  What the file variant then does: it writes, under the output path, the encode at the
  largest quality of \<open>5..95\<close> that fits the target, or the encode at quality 5 when no
  quality of \<open>5..95\<close> fits.
\<close>

lemma binarySearchQuality_writes:
  fixes enc :: "int \<Rightarrow> buffer"
  assumes enc: "\<And>q. 5 \<le> q \<Longrightarrow> q \<le> 95 \<Longrightarrow> compressWithQuality sharp this format q = Inr (enc q)"
      and mono: "\<And>q q'. 5 \<le> q \<Longrightarrow> q \<le> q' \<Longrightarrow> q' \<le> 95 \<Longrightarrow> length (enc q) \<le> length (enc q')"
  shows "\<exists>q tested. 5 \<le> q \<and> q \<le> 95 \<and> tested \<noteq> []
    \<and> binarySearchQuality sharp this fs outputPath format t =
        (Inr outputPath, writeFile fs outputPath (enc q), tested)
    \<and> ((length (enc q) \<le> t
          \<and> (\<forall>q'. 5 \<le> q' \<and> q' \<le> 95 \<and> length (enc q') \<le> t \<longrightarrow> q' \<le> q))
       \<or> (q = 5 \<and> (\<forall>q'. 5 \<le> q' \<and> q' \<le> 95 \<longrightarrow> \<not> length (enc q') \<le> t)))"
proof -
  from bs_loop_from_full_range [OF enc mono, of t] obtain best tested where
        loop: "bs_loop sharp this format t 5 95 None 0 [] = (Inr best, tested)"
    and ne: "tested \<noteq> []"
    and alt: "(\<exists>q. q \<in> set tested \<and> 5 \<le> q \<and> q \<le> 95 \<and> best = Some (enc q) \<and> length (enc q) \<le> t
            \<and> (\<forall>q'. 5 \<le> q' \<and> q' \<le> 95 \<and> length (enc q') \<le> t \<longrightarrow> q' \<le> q))
       \<or> (best = None \<and> 5 \<in> set tested
            \<and> (\<forall>q. 5 \<le> q \<and> q \<le> 95 \<longrightarrow> \<not> length (enc q) \<le> t))"
    by blast
  from alt show ?thesis
  proof
    assume "\<exists>q. q \<in> set tested \<and> 5 \<le> q \<and> q \<le> 95 \<and> best = Some (enc q) \<and> length (enc q) \<le> t
            \<and> (\<forall>q'. 5 \<le> q' \<and> q' \<le> 95 \<and> length (enc q') \<le> t \<longrightarrow> q' \<le> q)"
    then obtain q where q: "5 \<le> q" "q \<le> 95" "best = Some (enc q)" "length (enc q) \<le> t"
        "\<forall>q'. 5 \<le> q' \<and> q' \<le> 95 \<and> length (enc q') \<le> t \<longrightarrow> q' \<le> q"
      by blast
    have run: "binarySearchQuality sharp this fs outputPath format t =
        (Inr outputPath, writeFile fs outputPath (enc q), tested)"
      using loop q(3) by (simp add: binarySearchQuality_def)
    from q(1,2) ne run q(4,5) show ?thesis
      by (intro exI[of _ q] exI[of _ tested] conjI disjI1)
  next
    assume none: "best = None \<and> 5 \<in> set tested
            \<and> (\<forall>q. 5 \<le> q \<and> q \<le> 95 \<longrightarrow> \<not> length (enc q) \<le> t)"
    have e5: "compressWithQuality sharp this format 5 = Inr (enc 5)" by (rule enc) simp_all
    have run: "binarySearchQuality sharp this fs outputPath format t =
        (Inr outputPath, writeFile fs outputPath (enc 5), tested @ [5])"
      using loop none e5 by (simp add: binarySearchQuality_def)
    have "(5::int) = 5 \<and> (\<forall>q'. 5 \<le> q' \<and> q' \<le> 95 \<longrightarrow> \<not> length (enc q') \<le> t)"
      using none by simp
    with run show ?thesis
      by (intro exI[of _ 5] exI[of _ "tested @ [5]"] conjI disjI2) simp_all
  qed
qed

text \<open>
  Claim C2. For an encoder that does not throw on the qualities \<open>5..95\<close> and whose output
  size is non-decreasing in quality there, and for every target size. The loop stops,
  returning its best-so-far, when the interval is empty or \<open>maxAttempts = 15\<close> rounds
  are used up; otherwise a round encodes at the midpoint \<open>(minQ + maxQ) div 2\<close>, keeps
  the buffer as best-so-far and moves \<open>minQ\<close> above the midpoint when the size is within
  the target, and otherwise moves \<open>maxQ\<close> below it and keeps the previous best. The
  search from \<open>[5, 95]\<close> tests quality 50 first and runs at most \<open>maxAttempts\<close> rounds,
  all inside \<open>5..95\<close>. Both variants return (or write) the encode at the largest tested
  quality that fits the target, which is also the largest fitting quality of the whole
  range; or, when no quality of \<open>5..95\<close> fits (quality 5 was then tested), the encode
  of a further call of \<^verbatim>\<open>compressWithQuality\<close> at quality 5.
\<close>

theorem binary_search_monotone:
  fixes enc :: "int \<Rightarrow> buffer"
  assumes enc: "\<And>q. 5 \<le> q \<Longrightarrow> q \<le> 95 \<Longrightarrow> compressWithQuality sharp this format q = Inr (enc q)"
      and mono: "\<And>q q'. 5 \<le> q \<Longrightarrow> q \<le> q' \<Longrightarrow> q' \<le> 95 \<Longrightarrow> length (enc q) \<le> length (enc q')"
  shows "(\<not> (minQ \<le> maxQ \<and> attempts < maxAttempts) \<longrightarrow>
      bs_loop sharp this format targetSize minQ maxQ bestBuffer attempts tested0 =
        (Inr bestBuffer, tested0))
    \<and> (5 \<le> minQ \<and> minQ \<le> maxQ \<and> maxQ \<le> 95 \<and> attempts < maxAttempts \<longrightarrow>
      bs_loop sharp this format targetSize minQ maxQ bestBuffer attempts tested0 =
        (if length (enc ((minQ + maxQ) div 2)) \<le> targetSize
         then bs_loop sharp this format targetSize ((minQ + maxQ) div 2 + 1) maxQ
                (Some (enc ((minQ + maxQ) div 2))) (attempts + 1)
                (tested0 @ [(minQ + maxQ) div 2])
         else bs_loop sharp this format targetSize minQ ((minQ + maxQ) div 2 - 1)
                bestBuffer (attempts + 1) (tested0 @ [(minQ + maxQ) div 2])))
    \<and> (\<exists>best tested.
      bs_loop sharp this format targetSize 5 95 None 0 [] = (Inr best, tested)
    \<and> tested \<noteq> [] \<and> hd tested = 50
    \<and> length tested \<le> maxAttempts
    \<and> (\<forall>q \<in> set tested. 5 \<le> q \<and> q \<le> 95)
    \<and> ((\<exists>q \<in> set tested.
           best = Some (enc q) \<and> length (enc q) \<le> targetSize
         \<and> (\<forall>q' \<in> set tested. length (enc q') \<le> targetSize \<longrightarrow> q' \<le> q)
         \<and> (\<forall>q'. 5 \<le> q' \<and> q' \<le> 95 \<and> length (enc q') \<le> targetSize \<longrightarrow> q' \<le> q)
         \<and> binarySearchQualityBuffer sharp this format targetSize = (Inr (enc q), tested)
         \<and> binarySearchQuality sharp this fs outputPath format targetSize =
             (Inr outputPath, writeFile fs outputPath (enc q), tested))
       \<or> (best = None
         \<and> 5 \<in> set tested
         \<and> (\<forall>q. 5 \<le> q \<and> q \<le> 95 \<longrightarrow> \<not> length (enc q) \<le> targetSize)
         \<and> binarySearchQualityBuffer sharp this format targetSize = (Inr (enc 5), tested @ [5])
         \<and> binarySearchQuality sharp this fs outputPath format targetSize =
             (Inr outputPath, writeFile fs outputPath (enc 5), tested @ [5]))))"
    (is "?stop \<and> ?step \<and> ?main")
proof -
  have stop: ?stop
    by (rule impI) (rule bs_loop_stop)
  have step: ?step
  proof
    assume a: "5 \<le> minQ \<and> minQ \<le> maxQ \<and> maxQ \<le> 95 \<and> attempts < maxAttempts"
    then have "5 \<le> (minQ + maxQ) div 2" "(minQ + maxQ) div 2 \<le> 95" by presburger+
    then have "compressWithQuality sharp this format ((minQ + maxQ) div 2)
                 = Inr (enc ((minQ + maxQ) div 2))"
      by (rule enc)
    with a show "bs_loop sharp this format targetSize minQ maxQ bestBuffer attempts tested0 =
        (if length (enc ((minQ + maxQ) div 2)) \<le> targetSize
         then bs_loop sharp this format targetSize ((minQ + maxQ) div 2 + 1) maxQ
                (Some (enc ((minQ + maxQ) div 2))) (attempts + 1)
                (tested0 @ [(minQ + maxQ) div 2])
         else bs_loop sharp this format targetSize minQ ((minQ + maxQ) div 2 - 1)
                bestBuffer (attempts + 1) (tested0 @ [(minQ + maxQ) div 2]))"
      by (simp add: bs_loop_fit bs_loop_nofit)
  qed
  from bs_loop_from_full_range [OF enc mono, of targetSize] obtain best tested where
        loop: "bs_loop sharp this format targetSize 5 95 None 0 [] = (Inr best, tested)"
    and ne: "tested \<noteq> []" and hd: "hd tested = 50" and len: "length tested \<le> 7"
    and alt: "(\<exists>q. q \<in> set tested \<and> 5 \<le> q \<and> q \<le> 95 \<and> best = Some (enc q)
            \<and> length (enc q) \<le> targetSize
            \<and> (\<forall>q'. 5 \<le> q' \<and> q' \<le> 95 \<and> length (enc q') \<le> targetSize \<longrightarrow> q' \<le> q))
       \<or> (best = None \<and> 5 \<in> set tested
            \<and> (\<forall>q. 5 \<le> q \<and> q \<le> 95 \<longrightarrow> \<not> length (enc q) \<le> targetSize))"
    by blast
  have range: "\<forall>q \<in> set tested. 5 \<le> q \<and> q \<le> 95"
    using bs_loop_tested_range[of 5 95 "[]" sharp this format targetSize None 0] loop by simp
  have len': "length tested \<le> maxAttempts" using len by (simp add: maxAttempts_def)
  have e5: "compressWithQuality sharp this format 5 = Inr (enc 5)" by (rule enc) simp_all
  have outcome: "(\<exists>q \<in> set tested.
           best = Some (enc q) \<and> length (enc q) \<le> targetSize
         \<and> (\<forall>q' \<in> set tested. length (enc q') \<le> targetSize \<longrightarrow> q' \<le> q)
         \<and> (\<forall>q'. 5 \<le> q' \<and> q' \<le> 95 \<and> length (enc q') \<le> targetSize \<longrightarrow> q' \<le> q)
         \<and> binarySearchQualityBuffer sharp this format targetSize = (Inr (enc q), tested)
         \<and> binarySearchQuality sharp this fs outputPath format targetSize =
             (Inr outputPath, writeFile fs outputPath (enc q), tested))
       \<or> (best = None
         \<and> 5 \<in> set tested
         \<and> (\<forall>q. 5 \<le> q \<and> q \<le> 95 \<longrightarrow> \<not> length (enc q) \<le> targetSize)
         \<and> binarySearchQualityBuffer sharp this format targetSize = (Inr (enc 5), tested @ [5])
         \<and> binarySearchQuality sharp this fs outputPath format targetSize =
             (Inr outputPath, writeFile fs outputPath (enc 5), tested @ [5]))"
    using alt
  proof
    assume "\<exists>q. q \<in> set tested \<and> 5 \<le> q \<and> q \<le> 95 \<and> best = Some (enc q)
            \<and> length (enc q) \<le> targetSize
            \<and> (\<forall>q'. 5 \<le> q' \<and> q' \<le> 95 \<and> length (enc q') \<le> targetSize \<longrightarrow> q' \<le> q)"
    then obtain q where q: "q \<in> set tested" "best = Some (enc q)" "length (enc q) \<le> targetSize"
        "\<forall>q'. 5 \<le> q' \<and> q' \<le> 95 \<and> length (enc q') \<le> targetSize \<longrightarrow> q' \<le> q"
      by blast
    have t: "\<forall>q' \<in> set tested. length (enc q') \<le> targetSize \<longrightarrow> q' \<le> q"
      using q(4) range by blast
    have b: "binarySearchQualityBuffer sharp this format targetSize = (Inr (enc q), tested)"
      using loop q(2) by (simp add: binarySearchQualityBuffer_def)
    have f: "binarySearchQuality sharp this fs outputPath format targetSize =
             (Inr outputPath, writeFile fs outputPath (enc q), tested)"
      using loop q(2) by (simp add: binarySearchQuality_def)
    from q(2,3) t q(4) b f have "best = Some (enc q) \<and> length (enc q) \<le> targetSize
         \<and> (\<forall>q' \<in> set tested. length (enc q') \<le> targetSize \<longrightarrow> q' \<le> q)
         \<and> (\<forall>q'. 5 \<le> q' \<and> q' \<le> 95 \<and> length (enc q') \<le> targetSize \<longrightarrow> q' \<le> q)
         \<and> binarySearchQualityBuffer sharp this format targetSize = (Inr (enc q), tested)
         \<and> binarySearchQuality sharp this fs outputPath format targetSize =
             (Inr outputPath, writeFile fs outputPath (enc q), tested)"
      by (intro conjI)
    with q(1) show ?thesis by (intro disjI1 bexI[of _ q])
  next
    assume none: "best = None \<and> 5 \<in> set tested
            \<and> (\<forall>q. 5 \<le> q \<and> q \<le> 95 \<longrightarrow> \<not> length (enc q) \<le> targetSize)"
    have b: "binarySearchQualityBuffer sharp this format targetSize = (Inr (enc 5), tested @ [5])"
      using loop none e5 by (simp add: binarySearchQualityBuffer_def)
    have f: "binarySearchQuality sharp this fs outputPath format targetSize =
             (Inr outputPath, writeFile fs outputPath (enc 5), tested @ [5])"
      using loop none e5 by (simp add: binarySearchQuality_def)
    from none b f show ?thesis by (intro disjI2 conjI) simp_all
  qed
  have main: ?main
    using loop ne hd len' range outcome by (intro exI[of _ best] exI[of _ tested] conjI)
  from stop step main show ?thesis by (intro conjI)
qed

text \<open>
  The theorem at work with the synthetic encoder, whose output has as many bytes as the
  quality: with a target of 50 bytes the search tests 50, 73, 61, 55, 52, 51 and returns
  the encode at quality 50; with a target of 3 bytes it tests 50, 27, 15, 9, 6, 5, finds
  nothing that fits, and encodes once more at quality 5.
\<close>

theorem binary_search_monotone_witness:
  "(\<forall>q. compressWithQuality synthetic_codec \<lparr>speedOptimized = False, skipOptimizations = False\<rparr>
          ''jpeg'' q = Inr (replicate (nat q) 0))
   \<and> mono (\<lambda>q. length (replicate (nat q) (0::8 word)))
   \<and> bs_loop synthetic_codec \<lparr>speedOptimized = False, skipOptimizations = False\<rparr>
        ''jpeg'' 50 5 95 None 0 [] = (Inr (Some (replicate 50 0)), [50, 73, 61, 55, 52, 51])
   \<and> binarySearchQualityBuffer synthetic_codec
        \<lparr>speedOptimized = False, skipOptimizations = False\<rparr> ''jpeg'' 50 =
      (Inr (replicate 50 0), [50, 73, 61, 55, 52, 51])
   \<and> binarySearchQuality synthetic_codec
        \<lparr>speedOptimized = False, skipOptimizations = False\<rparr> Map.empty ''out.jpg'' ''jpeg'' 50 =
      (Inr ''out.jpg'', writeFile Map.empty ''out.jpg'' (replicate 50 0),
       [50, 73, 61, 55, 52, 51])
   \<and> bs_loop synthetic_codec \<lparr>speedOptimized = False, skipOptimizations = False\<rparr>
        ''jpeg'' 3 5 95 None 0 [] = (Inr None, [50, 27, 15, 9, 6, 5])
   \<and> binarySearchQualityBuffer synthetic_codec
        \<lparr>speedOptimized = False, skipOptimizations = False\<rparr> ''jpeg'' 3 =
      (Inr (replicate 5 0), [50, 27, 15, 9, 6, 5, 5])
   \<and> binarySearchQuality synthetic_codec
        \<lparr>speedOptimized = False, skipOptimizations = False\<rparr> Map.empty ''out.jpg'' ''jpeg'' 3 =
      (Inr ''out.jpg'', writeFile Map.empty ''out.jpg'' (replicate 5 0),
       [50, 27, 15, 9, 6, 5, 5])"
proof -
  let ?cmp = "\<lparr>speedOptimized = False, skipOptimizations = False\<rparr>"
  let ?enc = "\<lambda>q::int. replicate (nat q) (0::8 word)"
  have enc: "compressWithQuality synthetic_codec ?cmp ''jpeg'' q = Inr (?enc q)" for q
    by (simp add: compressWithQuality_def getCompressionOptions_def synthetic_codec_def
          toLowerCase_def lower_char_def)
  have mono: "mono (\<lambda>q. length (?enc q))"
    by (auto simp: mono_def)
  have mono': "length (?enc q) \<le> length (?enc q')" if "q \<le> q'" for q q'
    using that by simp
  have loop50: "bs_loop synthetic_codec ?cmp ''jpeg'' 50 5 95 None 0 [] =
      (Inr (Some (replicate 50 0)), [50, 73, 61, 55, 52, 51])"
    by (simp add: bs_loop.simps enc maxAttempts_def)
  have loop3: "bs_loop synthetic_codec ?cmp ''jpeg'' 3 5 95 None 0 [] =
      (Inr None, [50, 27, 15, 9, 6, 5])"
    by (simp add: bs_loop.simps enc maxAttempts_def)
  note thm50 = binary_search_monotone [of synthetic_codec ?cmp "''jpeg''" ?enc
      5 95 0 50 None "[]" Map.empty "''out.jpg''", OF enc mono', THEN conjunct2, THEN conjunct2]
  note thm3 = binary_search_monotone [of synthetic_codec ?cmp "''jpeg''" ?enc
      5 95 0 3 None "[]" Map.empty "''out.jpg''", OF enc mono', THEN conjunct2, THEN conjunct2]
  have r50: "binarySearchQualityBuffer synthetic_codec ?cmp ''jpeg'' 50 =
         (Inr (replicate 50 0), [50, 73, 61, 55, 52, 51])
       \<and> binarySearchQuality synthetic_codec ?cmp Map.empty ''out.jpg'' ''jpeg'' 50 =
         (Inr ''out.jpg'', writeFile Map.empty ''out.jpg'' (replicate 50 0),
          [50, 73, 61, 55, 52, 51])"
    using thm50 unfolding loop50 by auto
  have r3: "binarySearchQualityBuffer synthetic_codec ?cmp ''jpeg'' 3 =
         (Inr (replicate 5 0), [50, 27, 15, 9, 6, 5, 5])
       \<and> binarySearchQuality synthetic_codec ?cmp Map.empty ''out.jpg'' ''jpeg'' 3 =
         (Inr ''out.jpg'', writeFile Map.empty ''out.jpg'' (replicate 5 0),
          [50, 27, 15, 9, 6, 5, 5])"
    using thm3 unfolding loop3 by auto
  from enc mono loop50 r50 loop3 r3 show ?thesis by simp
qed

text \<open>
  Claim C10. In both variants of the binary search, for every codec (one that throws
  included), every target and every format, each quality handed to
  \<^verbatim>\<open>compressWithQuality\<close> lies in \<open>[5, 95]\<close>; when the loop ends without a best buffer,
  the one further call is \<^verbatim>\<open>compressWithQuality\<close> at quality exactly 5. The quality
  option that \<^verbatim>\<open>getCompressionOptions\<close> then builds for the codec stays in \<open>[5, 95]\<close>
  too (for \<^verbatim>\<open>avif\<close> it is \<open>max 20 (q - 35)\<close>, for every other format \<open>q\<close> itself).
\<close>

theorem binary_search_quality_range:
  "(\<forall>q \<in> set (snd (bs_loop sharp this format targetSize 5 95 None 0 [])). 5 \<le> q \<and> q \<le> 95)
   \<and> (\<forall>q \<in> set (snd (binarySearchQualityBuffer sharp this format targetSize)).
         5 \<le> q \<and> q \<le> 95)
   \<and> (\<forall>q \<in> set (snd (snd (binarySearchQuality sharp this fs outputPath format targetSize))).
         5 \<le> q \<and> q \<le> 95)
   \<and> (fst (bs_loop sharp this format targetSize 5 95 None 0 []) = Inr None \<longrightarrow>
         binarySearchQualityBuffer sharp this format targetSize =
           (compressWithQuality sharp this format 5,
            snd (bs_loop sharp this format targetSize 5 95 None 0 []) @ [5])
       \<and> snd (snd (binarySearchQuality sharp this fs outputPath format targetSize)) =
           snd (bs_loop sharp this format targetSize 5 95 None 0 []) @ [5]
       \<and> fst (binarySearchQuality sharp this fs outputPath format targetSize) =
           (case compressWithQuality sharp this format 5 of
              Inl err \<Rightarrow> Inl err | Inr buffer \<Rightarrow> Inr outputPath))
   \<and> (\<forall>q. 5 \<le> q \<and> q \<le> 95 \<longrightarrow>
         (\<exists>q'. map_of (getCompressionOptions this format q) ''quality'' = Some (Num q')
             \<and> 5 \<le> q' \<and> q' \<le> 95))"
proof -
  let ?loop = "bs_loop sharp this format targetSize 5 95 None 0 []"
  have loop: "\<forall>q \<in> set (snd ?loop). 5 \<le> q \<and> q \<le> 95"
    by (rule bs_loop_tested_range) simp_all
  have buf: "\<forall>q \<in> set (snd (binarySearchQualityBuffer sharp this format targetSize)).
      5 \<le> q \<and> q \<le> 95"
    using loop
    by (cases ?loop) (auto simp: binarySearchQualityBuffer_def split: sum.splits option.splits)
  have to_file: "\<forall>q \<in> set (snd (snd (binarySearchQuality sharp this fs outputPath format targetSize))).
      5 \<le> q \<and> q \<le> 95"
    using loop
    by (cases ?loop) (auto simp: binarySearchQuality_def split: sum.splits option.splits)
  have fallback: "fst ?loop = Inr None \<longrightarrow>
         binarySearchQualityBuffer sharp this format targetSize =
           (compressWithQuality sharp this format 5, snd ?loop @ [5])
       \<and> snd (snd (binarySearchQuality sharp this fs outputPath format targetSize)) =
           snd ?loop @ [5]
       \<and> fst (binarySearchQuality sharp this fs outputPath format targetSize) =
           (case compressWithQuality sharp this format 5 of
              Inl err \<Rightarrow> Inl err | Inr buffer \<Rightarrow> Inr outputPath)"
    by (cases ?loop)
       (auto simp: binarySearchQualityBuffer_def binarySearchQuality_def split: sum.splits)
  have opts: "\<forall>q. 5 \<le> q \<and> q \<le> 95 \<longrightarrow>
         (\<exists>q'. map_of (getCompressionOptions this format q) ''quality'' = Some (Num q')
             \<and> 5 \<le> q' \<and> q' \<le> 95)"
    by (auto simp: getCompressionOptions_def Let_def)
  from loop buf to_file fallback opts show ?thesis by (intro conjI)
qed

theorem binary_search_quality_range_witness:
  "snd (bs_loop synthetic_codec \<lparr>speedOptimized = False, skipOptimizations = False\<rparr>
          ''avif'' 3 5 95 None 0 []) = [50, 27, 15, 9, 6, 5]
   \<and> fst (bs_loop synthetic_codec \<lparr>speedOptimized = False, skipOptimizations = False\<rparr>
          ''avif'' 3 5 95 None 0 []) = Inr None
   \<and> binarySearchQualityBuffer synthetic_codec
          \<lparr>speedOptimized = False, skipOptimizations = False\<rparr> ''avif'' 3 =
        (compressWithQuality synthetic_codec
           \<lparr>speedOptimized = False, skipOptimizations = False\<rparr> ''avif'' 5,
         [50, 27, 15, 9, 6, 5, 5])
   \<and> list_all (\<lambda>q. 5 \<le> q \<and> q \<le> 95)
        (snd (binarySearchQualityBuffer synthetic_codec
           \<lparr>speedOptimized = False, skipOptimizations = False\<rparr> ''avif'' 3))
   \<and> list_all (\<lambda>q. 5 \<le> q \<and> q \<le> 95)
        (snd (snd (binarySearchQuality synthetic_codec
           \<lparr>speedOptimized = False, skipOptimizations = False\<rparr> Map.empty ''out.avif'' ''avif'' 3)))
   \<and> map_of (getCompressionOptions \<lparr>speedOptimized = False, skipOptimizations = False\<rparr>
          ''avif'' 5) ''quality'' = Some (Num 20)"
proof -
  let ?cmp = "\<lparr>speedOptimized = False, skipOptimizations = False\<rparr>"
  have loop: "bs_loop synthetic_codec ?cmp ''avif'' 3 5 95 None 0 [] =
      (Inr None, [50, 27, 15, 9, 6, 5])"
    by (simp add: bs_loop.simps maxAttempts_def compressWithQuality_def
          getCompressionOptions_def synthetic_codec_def toLowerCase_def lower_char_def)
  show ?thesis
    using binary_search_quality_range[of synthetic_codec ?cmp "''avif''" 3 Map.empty "''out.avif''"]
          loop
    by (simp add: list_all_iff getCompressionOptions_def toLowerCase_def lower_char_def)
qed

section \<open>PNG configurations on the standard path\<close>

lemma png_try_first_fit:
  "i < length cs \<Longrightarrow>
   \<forall>j < i. \<exists>b. sharp ''png'' (cs ! j) = Inr b \<and> \<not> length b \<le> t \<Longrightarrow>
   sharp ''png'' (cs ! i) = Inr buf \<Longrightarrow> length buf \<le> t \<Longrightarrow>
   png_try sharp t cs = Inr (Some buf)"
proof (induction cs arbitrary: i)
  case Nil
  then show ?case by simp
next
  case (Cons c cs)
  show ?case
  proof (cases i)
    case 0
    with Cons.prems show ?thesis by simp
  next
    case (Suc k)
    from Cons.prems(2) Suc obtain b0 where b0: "sharp ''png'' c = Inr b0" "\<not> length b0 \<le> t"
      by fastforce
    have "\<forall>j < k. \<exists>b. sharp ''png'' (cs ! j) = Inr b \<and> \<not> length b \<le> t"
      using Cons.prems(2) Suc by fastforce
    then have "png_try sharp t cs = Inr (Some buf)"
      using Cons.prems Suc by (intro Cons.IH[of k]) simp_all
    with b0 show ?thesis by simp
  qed
qed

lemma png_try_none_fit:
  "\<forall>j < length cs. \<exists>b. sharp ''png'' (cs ! j) = Inr b \<and> \<not> length b \<le> t \<Longrightarrow>
   png_try sharp t cs = Inr None"
proof (induction cs)
  case Nil
  then show ?case by simp
next
  case (Cons c cs)
  from Cons.prems obtain b0 where b0: "sharp ''png'' c = Inr b0" "\<not> length b0 \<le> t"
    by fastforce
  have "\<forall>j < length cs. \<exists>b. sharp ''png'' (cs ! j) = Inr b \<and> \<not> length b \<le> t"
    using Cons.prems by fastforce
  then have "png_try sharp t cs = Inr None" by (rule Cons.IH)
  with b0 show ?case by simp
qed

text \<open>
  Claim C7, as amended. \<^verbatim>\<open>optimizePNG\<close> tries its four configurations in order (128, 64
  and 32 palette colours, then no palette) and writes the output of the first one that is
  within the target. When none of them is, it encodes again with the first configuration
  (\<^verbatim>\<open>configs[0]\<close>: quality 50, 128 colours) and writes that.
\<close>

theorem optimizePNG_first_fit_else_first_config:
  "(i < length png_configs
      \<and> (\<forall>j < i. \<exists>b. sharp ''png'' (png_configs ! j) = Inr b \<and> \<not> length b \<le> targetSize)
      \<and> sharp ''png'' (png_configs ! i) = Inr buf \<and> length buf \<le> targetSize
    \<longrightarrow> optimizePNG sharp fs outputPath targetSize =
          (Inr outputPath, writeFile fs outputPath buf))
   \<and> ((\<forall>j < length png_configs.
          \<exists>b. sharp ''png'' (png_configs ! j) = Inr b \<and> \<not> length b \<le> targetSize)
      \<and> sharp ''png'' (png_configs ! 0) = Inr buf0
    \<longrightarrow> optimizePNG sharp fs outputPath targetSize =
          (Inr outputPath, writeFile fs outputPath buf0))"
  by (auto simp: optimizePNG_def png_try_first_fit png_try_none_fit)

theorem optimizePNG_first_fit_else_first_config_witness:
  "3 < length png_configs
   \<and> optimizePNG palette_codec Map.empty ''out.png'' 70 =
        (Inr ''out.png'', writeFile Map.empty ''out.png'' (replicate 64 0))
   \<and> optimizePNG palette_codec Map.empty ''out.png'' 10 =
        (Inr ''out.png'', writeFile Map.empty ''out.png'' (replicate 128 0))"
proof -
  have c: "palette_codec ''png'' (png_configs ! 0) = Inr (replicate 128 0)"
      "palette_codec ''png'' (png_configs ! 1) = Inr (replicate 64 0)"
      "palette_codec ''png'' (png_configs ! 2) = Inr (replicate 32 0)"
      "palette_codec ''png'' (png_configs ! 3) = Inr (replicate 200 0)"
    by (simp_all add: palette_codec_def png_configs_def)
  have len: "length png_configs = 4" by (simp add: png_configs_def)
  have all: "\<forall>j < length png_configs.
      \<exists>b. palette_codec ''png'' (png_configs ! j) = Inr b \<and> \<not> length b \<le> 10"
    unfolding len using c by (auto simp: less_Suc_eq numeral_eq_Suc)
  have first: "\<forall>j < 1. \<exists>b. palette_codec ''png'' (png_configs ! j) = Inr b \<and> \<not> length b \<le> 70"
    using c by simp
  show ?thesis
    using optimizePNG_first_fit_else_first_config
            [of 1 palette_codec 70 "replicate 64 0" Map.empty "''out.png''" "replicate 128 0"]
          optimizePNG_first_fit_else_first_config
            [of 1 palette_codec 10 "replicate 64 0" Map.empty "''out.png''" "replicate 128 0"]
          c all first len
    by simp
qed

text \<open>
  Claim C7 as stated fails: with an encoder whose outputs have 128, 64, 32 and 200 bytes
  and a target of 10 bytes no configuration fits, and the file written holds the 128
  bytes of the first configuration, not the output of the smallest palette (32 bytes) nor
  that of the configuration tried last (200 bytes).
\<close>

theorem optimizePNG_most_aggressive_counterexample:
  "png_try palette_codec 10 png_configs = Inr None
   \<and> map (\<lambda>c. map_sum id length (palette_codec ''png'' c)) png_configs =
        [Inr 128, Inr 64, Inr 32, Inr 200]
   \<and> fst (optimizePNG palette_codec Map.empty ''out.png'' 10) = Inr ''out.png''
   \<and> snd (optimizePNG palette_codec Map.empty ''out.png'' 10) ''out.png'' =
        Some (replicate 128 0)
   \<and> palette_codec ''png'' (png_configs ! 2) = Inr (replicate 32 0)
   \<and> palette_codec ''png'' (png_configs ! 3) = Inr (replicate 200 0)
   \<and> snd (optimizePNG palette_codec Map.empty ''out.png'' 10) ''out.png'' \<noteq>
        Some (replicate 32 0)
   \<and> snd (optimizePNG palette_codec Map.empty ''out.png'' 10) ''out.png'' \<noteq>
        Some (replicate 200 0)"
  by (simp add: optimizePNG_def png_configs_def palette_codec_def writeFile_def)

section \<open>Selection among the strategies of the extreme path\<close>

lemma set_insort_by: "set (insort_by le x xs) = insert x (set xs)"
  by (induction xs) auto

lemma set_sort_by: "set (sort_by le xs) = set xs"
  by (induction xs) (simp_all add: sort_by_def set_insort_by)

lemma sort_by_Nil_iff: "sort_by le xs = [] \<longleftrightarrow> xs = []"
proof -
  have "set (sort_by le xs) = {} \<longleftrightarrow> set xs = {}" by (simp add: set_sort_by)
  then show ?thesis by (simp only: set_empty)
qed

lemma hd_insort_by: "hd (insort_by le x xs) = (if xs = [] \<or> le x (hd xs) then x else hd xs)"
  by (cases xs) simp_all

text \<open>
  For a comparator that is total and transitive on the elements of the array, the first
  element after sorting is one of them and comes before or ties with every other.
\<close>

lemma hd_sort_by_least:
  assumes total: "\<And>a b. a \<in> set xs \<Longrightarrow> b \<in> set xs \<Longrightarrow> le a b \<or> le b a"
      and trans: "\<And>a b c. a \<in> set xs \<Longrightarrow> b \<in> set xs \<Longrightarrow> c \<in> set xs \<Longrightarrow>
                    le a b \<Longrightarrow> le b c \<Longrightarrow> le a c"
      and ne: "xs \<noteq> []"
  shows "hd (sort_by le xs) \<in> set xs \<and> (\<forall>y \<in> set xs. le (hd (sort_by le xs)) y)"
  using assms
proof (induction xs)
  case Nil
  from Nil.prems(3) show ?case by simp
next
  case (Cons x xs)
  have step: "sort_by le (x # xs) = insort_by le x (sort_by le xs)"
    by (simp add: sort_by_def)
  have x_in: "x \<in> set (x # xs)" by simp
  have refl: "le x x" using Cons.prems(1)[OF x_in x_in] by simp
  show ?case
  proof (cases "xs = []")
    case True
    have "sort_by le (x # xs) = [x]" unfolding True by (simp add: sort_by_def)
    then show ?thesis using refl True by simp
  next
    case False
    define m where "m = hd (sort_by le xs)"
    have ih: "m \<in> set xs \<and> (\<forall>y \<in> set xs. le m y)"
      unfolding m_def
    proof (rule Cons.IH)
      show "le a b \<or> le b a" if "a \<in> set xs" "b \<in> set xs" for a b
        using Cons.prems(1)[of a b] that by simp
      show "le a c" if "a \<in> set xs" "b \<in> set xs" "c \<in> set xs" "le a b" "le b c" for a b c
        using Cons.prems(2)[of a b c] that by simp
      show "xs \<noteq> []" by (rule False)
    qed
    then have m_in: "m \<in> set (x # xs)" by simp
    have ne': "sort_by le xs \<noteq> []" using False by (simp add: sort_by_Nil_iff)
    have hd: "hd (sort_by le (x # xs)) = (if le x m then x else m)"
      unfolding step hd_insort_by m_def using ne' by simp
    show ?thesis
    proof (cases "le x m")
      case True
      have "le x y" if y: "y \<in> set xs" for y
      proof -
        have "le m y" using ih y by simp
        moreover have "y \<in> set (x # xs)" using y by simp
        ultimately show ?thesis using Cons.prems(2)[OF x_in m_in _ True] by simp
      qed
      then show ?thesis using refl True by (simp add: hd)
    next
      case nle: False
      have "le m x" using Cons.prems(1)[OF x_in m_in] nle by simp
      then show ?thesis using ih nle by (simp add: hd)
    qed
  qed
qed

lemma outcome_success_iff: "outcome_success r \<longleftrightarrow> (\<exists>s b t. r = Success s b t)"
  by (cases r) simp_all

lemma hd_sort_by_size:
  assumes "xs \<noteq> []"
  shows "hd (sort_by by_size xs) \<in> set xs
       \<and> (\<forall>y \<in> set xs. outcome_size (hd (sort_by by_size xs)) \<le> outcome_size y)"
proof -
  have "hd (sort_by by_size xs) \<in> set xs \<and> (\<forall>y \<in> set xs. by_size (hd (sort_by by_size xs)) y)"
  proof (rule hd_sort_by_least)
    show "by_size a b \<or> by_size b a" for a b
      unfolding by_size_def by (rule linear)
    show "by_size a c" if "by_size a b" "by_size b c" for a b c
      using that unfolding by_size_def by (rule order_trans)
    show "xs \<noteq> []" by (rule assms)
  qed
  then show ?thesis by (simp add: by_size_def)
qed

lemma hd_sort_by_size_desc:
  assumes "xs \<noteq> []"
  shows "hd (sort_by by_size_desc xs) \<in> set xs
       \<and> (\<forall>y \<in> set xs. outcome_size y \<le> outcome_size (hd (sort_by by_size_desc xs)))"
proof -
  have "hd (sort_by by_size_desc xs) \<in> set xs
      \<and> (\<forall>y \<in> set xs. by_size_desc (hd (sort_by by_size_desc xs)) y)"
  proof (rule hd_sort_by_least)
    show "by_size_desc a b \<or> by_size_desc b a" for a b
      unfolding by_size_desc_def by (rule linear)
    show "by_size_desc a c" if "by_size_desc a b" "by_size_desc b c" for a b c
      using that(2,1) unfolding by_size_desc_def by (rule order_trans)
    show "xs \<noteq> []" by (rule assms)
  qed
  then show ?thesis by (simp add: by_size_desc_def)
qed

lemma by_time_Success: "by_time (Success s b t) (Success s' b' t') = (t \<le> t')"
  by (simp add: by_time_def)

lemma hd_sort_by_time:
  assumes ne: "xs \<noteq> []" and succ: "\<forall>r \<in> set xs. outcome_success r"
  shows "hd (sort_by by_time xs) \<in> set xs
       \<and> (\<forall>y \<in> set xs. by_time (hd (sort_by by_time xs)) y)"
proof (rule hd_sort_by_least)
  show "by_time a b \<or> by_time b a" if "a \<in> set xs" "b \<in> set xs" for a b
  proof -
    have "outcome_success a" "outcome_success b" using succ that by auto
    then obtain s b' t s' b'' t' where "a = Success s b' t" "b = Success s' b'' t'"
      by (auto simp: outcome_success_iff)
    then show ?thesis by (auto simp: by_time_Success)
  qed
  show "by_time a c"
    if "a \<in> set xs" "b \<in> set xs" "c \<in> set xs" "by_time a b" "by_time b c" for a b c
  proof -
    have "outcome_success a" "outcome_success b" "outcome_success c"
      using succ that(1,2,3) by auto
    then obtain s1 b1 t1 s2 b2 t2 s3 b3 t3
      where "a = Success s1 b1 t1" "b = Success s2 b2 t2" "c = Success s3 b3 t3"
      by (auto simp: outcome_success_iff)
    with that(4,5) show ?thesis by (simp add: by_time_Success)
  qed
  show "xs \<noteq> []" by (rule ne)
qed

lemma quality_util_le_95:
  assumes "target \<noteq> 0"
  shows "(qualityUtil n target \<le> 95) = (100 * n \<le> 95 * target)"
proof -
  have "(qualityUtil n target \<le> 95)
      = (rat_of_nat (100 * n) \<le> rat_of_nat (95 * target))"
    using assms by (simp add: qualityUtil_def field_simps)
  also have "\<dots> = (100 * n \<le> 95 * target)" by (rule of_nat_le_iff)
  finally show ?thesis .
qed

lemma selectBestResult_policy:
  assumes ne: "results \<noteq> []"
      and succ: "\<forall>r \<in> set results. outcome_success r"
      and least: "\<forall>c \<in> set results. outcome_size (hd results) \<le> outcome_size c"
  shows "\<exists>s b t. Success s b t \<in> set results
     \<and> selectBestResult results strat target = Inr (Some (Success s b t))
     \<and> (strat = ''size'' \<longrightarrow>
          (\<forall>s' b' t'. Success s' b' t' \<in> set results \<longrightarrow> length b \<le> length b'))
     \<and> (strat = ''speed'' \<longrightarrow>
          (\<forall>s' b' t'. Success s' b' t' \<in> set results \<longrightarrow> t \<le> t'))
     \<and> (strat = ''quality'' \<longrightarrow>
          (\<forall>s' b' t'. Success s' b' t' \<in> set results \<longrightarrow> length b' \<le> length b))
     \<and> (strat \<noteq> ''size'' \<and> strat \<noteq> ''speed'' \<and> strat \<noteq> ''quality'' \<longrightarrow>
          ((\<forall>s' b' t'. Success s' b' t' \<in> set results \<longrightarrow> 100 * length b' \<le> 95 * target) \<longrightarrow>
             (\<forall>s' b' t'. Success s' b' t' \<in> set results \<longrightarrow> length b' \<le> length b))
        \<and> ((\<exists>s' b' t'. Success s' b' t' \<in> set results \<and> \<not> 100 * length b' \<le> 95 * target) \<longrightarrow>
             (\<forall>s' b' t'. Success s' b' t' \<in> set results \<longrightarrow> length b \<le> length b')))"
proof -
  obtain smallest rest where results: "results = smallest # rest"
    using ne by (cases results) auto
  define fastest where "fastest = hd (sort_by by_time results)"
  define bestQuality where "bestQuality = hd (sort_by by_size_desc results)"
  have in1: "smallest \<in> set results" by (simp add: results)
  have in2: "fastest \<in> set results" and min2: "\<forall>y \<in> set results. by_time fastest y"
    using hd_sort_by_time[OF ne succ] by (simp_all add: fastest_def)
  have in3: "bestQuality \<in> set results"
    and max3: "\<forall>y \<in> set results. outcome_size y \<le> outcome_size bestQuality"
    using hd_sort_by_size_desc[OF ne] by (simp_all add: bestQuality_def)
  have "outcome_success smallest" "outcome_success fastest" "outcome_success bestQuality"
    using succ in1 in2 in3 by auto
  then obtain s1 b1 t1 s2 b2 t2 s3 b3 t3 where
    forms: "smallest = Success s1 b1 t1" "fastest = Success s2 b2 t2"
           "bestQuality = Success s3 b3 t3"
    by (auto simp: outcome_success_iff)
  have small: "length b1 \<le> length b'" if "Success s' b' t' \<in> set results" for s' b' t'
    using least that by (fastforce simp: results forms)
  have fast: "t2 \<le> t'" if "Success s' b' t' \<in> set results" for s' b' t'
    using min2 that by (fastforce simp: forms by_time_Success)
  have large: "length b' \<le> length b3" if "Success s' b' t' \<in> set results" for s' b' t'
    using max3 that by (fastforce simp: forms)
  have sel: "selectBestResult results strat target =
      (if strat = ''size'' then Inr (Some smallest)
       else if strat = ''speed'' then Inr (Some fastest)
       else if strat = ''quality'' then Inr (Some bestQuality)
       else if target \<noteq> 0 \<and> 100 * length b3 \<le> 95 * target
            then Inr (Some bestQuality) else Inr (Some smallest))"
  proof -
    have bq: "hd (sort_by by_size_desc (smallest # rest)) = Success s3 b3 t3"
      using forms(3) unfolding bestQuality_def results .
    have fq: "hd (sort_by by_time (smallest # rest)) = fastest"
      unfolding fastest_def results ..
    show ?thesis
      unfolding selectBestResult_def results
      by (simp add: Let_def bq fq forms(3) quality_util_le_95 cong: conj_cong)
  qed
  consider (size) "strat = ''size''" | (speed) "strat = ''speed''"
    | (quality) "strat = ''quality''"
    | (auto_large) "strat \<noteq> ''size''" "strat \<noteq> ''speed''" "strat \<noteq> ''quality''"
        "target \<noteq> 0 \<and> 100 * length b3 \<le> 95 * target"
    | (auto_small) "strat \<noteq> ''size''" "strat \<noteq> ''speed''" "strat \<noteq> ''quality''"
        "\<not> (target \<noteq> 0 \<and> 100 * length b3 \<le> 95 * target)"
    by blast
  then show ?thesis
  proof cases
    case size
    have "selectBestResult results strat target = Inr (Some (Success s1 b1 t1))"
      unfolding sel using size by (simp add: forms)
    then show ?thesis
      using in1 small size unfolding forms
      by (intro exI[of _ s1] exI[of _ b1] exI[of _ t1]) simp
  next
    case speed
    have "selectBestResult results strat target = Inr (Some (Success s2 b2 t2))"
      unfolding sel using speed by (simp add: forms)
    then show ?thesis
      using in2 fast speed unfolding forms
      by (intro exI[of _ s2] exI[of _ b2] exI[of _ t2]) simp
  next
    case quality
    have "selectBestResult results strat target = Inr (Some (Success s3 b3 t3))"
      unfolding sel using quality by (simp add: forms)
    then show ?thesis
      using in3 large quality unfolding forms
      by (intro exI[of _ s3] exI[of _ b3] exI[of _ t3]) simp
  next
    case auto_large
    have within: "100 * length b' \<le> 95 * target"
      if "Success s' b' t' \<in> set results" for s' b' t'
    proof -
      have "100 * length b' \<le> 100 * length b3" using large[OF that] by simp
      with auto_large(4) show ?thesis by linarith
    qed
    have "selectBestResult results strat target = Inr (Some (Success s3 b3 t3))"
      unfolding sel using auto_large by (simp add: forms)
    then show ?thesis
      using in3 large within auto_large(1,2,3) unfolding forms
      by (intro exI[of _ s3] exI[of _ b3] exI[of _ t3]) (simp, blast)
  next
    case auto_small
    have all_zero: "length b' \<le> length b1"
      if all: "\<forall>s' b' t'. Success s' b' t' \<in> set results \<longrightarrow> 100 * length b' \<le> 95 * target"
        and mem: "Success s' b' t' \<in> set results" for s' b' t'
    proof -
      have "100 * length b3 \<le> 95 * target" using all in3 forms(3) by blast
      with auto_small(4) have "length b3 = 0" by simp
      with large[OF mem] show ?thesis by simp
    qed
    have "selectBestResult results strat target = Inr (Some (Success s1 b1 t1))"
      unfolding sel using auto_small by (auto simp: forms)
    then show ?thesis
      using in1 small all_zero auto_small(1,2,3) unfolding forms
      by (intro exI[of _ s1] exI[of _ b1] exI[of _ t1]) blast
  qed
qed

lemma testStrategy_Success:
  "testStrategy encodeStrategy s' = Success s b t \<longleftrightarrow> s' = s \<and> encodeStrategy s = Inr (b, t)"
  "Success s b t = testStrategy encodeStrategy s' \<longleftrightarrow> s' = s \<and> encodeStrategy s = Inr (b, t)"
  by (auto simp: testStrategy_def split: sum.splits)

lemma successful_outcomes_set:
  "set (successful_outcomes encodeStrategy keepDims format targetSize) =
     {r \<in> testStrategy encodeStrategy ` set (generateCompressionStrategies keepDims format).
        outcome_success r \<and> outcome_size r \<le> enat targetSize}"
  by (auto simp: successful_outcomes_def set_sort_by Let_def)

lemma successful_outcomes_success:
  "\<forall>r \<in> set (successful_outcomes encodeStrategy keepDims format targetSize). outcome_success r"
  by (simp add: successful_outcomes_set)

lemma Success_in_successful_outcomes:
  "Success s b t \<in> set (successful_outcomes encodeStrategy keepDims format targetSize)
     \<longleftrightarrow> under_budget encodeStrategy keepDims format targetSize s b t"
  unfolding successful_outcomes_set under_budget_def
  by (auto simp: testStrategy_Success image_iff)

lemma successful_outcomes_least:
  assumes "successful_outcomes encodeStrategy keepDims format targetSize \<noteq> []"
  shows "\<forall>c \<in> set (successful_outcomes encodeStrategy keepDims format targetSize).
     outcome_size (hd (successful_outcomes encodeStrategy keepDims format targetSize))
       \<le> outcome_size c"
proof -
  define cands where "cands =
    filter (\<lambda>r. outcome_success r \<and> outcome_size r \<le> enat targetSize)
      (map (testStrategy encodeStrategy) (generateCompressionStrategies keepDims format))"
  have eq: "successful_outcomes encodeStrategy keepDims format targetSize = sort_by by_size cands"
    by (simp add: successful_outcomes_def cands_def Let_def)
  have "cands \<noteq> []" using assms unfolding eq by (simp add: sort_by_Nil_iff)
  from hd_sort_by_size[OF this] show ?thesis
    unfolding eq by (simp add: set_sort_by)
qed

lemma successful_outcomes_Nil_iff:
  "successful_outcomes encodeStrategy keepDims format targetSize = []
     \<longleftrightarrow> \<not> (\<exists>s b t. under_budget encodeStrategy keepDims format targetSize s b t)"
proof -
  let ?xs = "successful_outcomes encodeStrategy keepDims format targetSize"
  have "?xs \<noteq> [] \<longleftrightarrow> (\<exists>r. r \<in> set ?xs)"
    by (cases ?xs) auto
  also have "\<dots> \<longleftrightarrow> (\<exists>s b t. Success s b t \<in> set ?xs)"
    using successful_outcomes_success[of encodeStrategy keepDims format targetSize]
    by (metis outcome_success_iff)
  also have "\<dots> \<longleftrightarrow> (\<exists>s b t. under_budget encodeStrategy keepDims format targetSize s b t)"
    by (simp add: Success_in_successful_outcomes)
  finally show ?thesis by blast
qed

text \<open>
  Claim C5. With a target below a tenth of the original size the file path runs the
  extreme path. When at least one catalog strategy succeeds within the target, the file
  written is the buffer of one such strategy, under the name of its format, chosen by
  policy: \<^verbatim>\<open>size\<close> takes a smallest, \<^verbatim>\<open>speed\<close> a fastest, \<^verbatim>\<open>quality\<close> a largest of
  those under budget; any other strategy (\<^verbatim>\<open>auto\<close>, the default) takes a largest when
  the largest is within 95% of the target and a smallest otherwise. When no catalog
  strategy succeeds within the target, the standard path runs. For a quality format
  (\<^verbatim>\<open>jpeg\<close>, \<^verbatim>\<open>jpg\<close>, \<^verbatim>\<open>webp\<close>, \<^verbatim>\<open>avif\<close>) that is the binary search: the best buffer of
  the loop from \<open>[5, 95]\<close> is written to the output path, or one more encode at quality
  5 when the loop found none; in particular, for an encoder that does not throw on
  \<open>5..95\<close> and whose output size is non-decreasing in quality there, the file written is
  the encode at the largest quality of \<open>5..95\<close> that fits the target, or the encode at
  quality 5 when none fits. For \<^verbatim>\<open>png\<close> it is the run through the PNG configurations
  (the first configuration is written when it fits), and for any other format the plain
  \<^verbatim>\<open>toFile\<close>.
\<close>

theorem extreme_path_selection:
  "(originalSize \<noteq> 0 \<and> 10 * targetSize < originalSize \<longrightarrow>
      compressToTargetSizeFile sharp toFile encodeStrategy this fs outputPath format keepDims
        strategy originalSize targetSize =
      extremeCompressionParallel sharp toFile encodeStrategy this fs outputPath format keepDims
        strategy targetSize)
   \<and> ((\<exists>s b t. under_budget encodeStrategy keepDims format targetSize s b t) \<longrightarrow>
        (\<exists>s b t. under_budget encodeStrategy keepDims format targetSize s b t
           \<and> extremeCompressionParallel sharp toFile encodeStrategy this fs outputPath format
                keepDims strategy targetSize =
               (Inr (replace_ext outputPath (getExtensionForFormat (strat_format s))),
                writeFile fs (replace_ext outputPath (getExtensionForFormat (strat_format s))) b)
           \<and> (strategy = ''size'' \<longrightarrow>
                (\<forall>s' b' t'. under_budget encodeStrategy keepDims format targetSize s' b' t'
                   \<longrightarrow> length b \<le> length b'))
           \<and> (strategy = ''speed'' \<longrightarrow>
                (\<forall>s' b' t'. under_budget encodeStrategy keepDims format targetSize s' b' t'
                   \<longrightarrow> t \<le> t'))
           \<and> (strategy = ''quality'' \<longrightarrow>
                (\<forall>s' b' t'. under_budget encodeStrategy keepDims format targetSize s' b' t'
                   \<longrightarrow> length b' \<le> length b))
           \<and> (strategy \<noteq> ''size'' \<and> strategy \<noteq> ''speed'' \<and> strategy \<noteq> ''quality'' \<longrightarrow>
                ((\<forall>s' b' t'. under_budget encodeStrategy keepDims format targetSize s' b' t'
                    \<longrightarrow> 100 * length b' \<le> 95 * targetSize) \<longrightarrow>
                 (\<forall>s' b' t'. under_budget encodeStrategy keepDims format targetSize s' b' t'
                    \<longrightarrow> length b' \<le> length b))
              \<and> ((\<exists>s' b' t'. under_budget encodeStrategy keepDims format targetSize s' b' t'
                    \<and> \<not> 100 * length b' \<le> 95 * targetSize) \<longrightarrow>
                 (\<forall>s' b' t'. under_budget encodeStrategy keepDims format targetSize s' b' t'
                    \<longrightarrow> length b \<le> length b')))))
   \<and> (\<not> (\<exists>s b t. under_budget encodeStrategy keepDims format targetSize s b t) \<longrightarrow>
        (format \<in> set [''jpeg'', ''jpg'', ''webp'', ''avif''] \<longrightarrow>
           extremeCompressionParallel sharp toFile encodeStrategy this fs outputPath format
             keepDims strategy targetSize =
           (case bs_loop sharp this format targetSize 5 95 None 0 [] of
              (Inl err, tested) \<Rightarrow> (Inl err, fs)
            | (Inr (Some bestBuffer), tested) \<Rightarrow>
                (Inr outputPath, writeFile fs outputPath bestBuffer)
            | (Inr None, tested) \<Rightarrow>
                (case compressWithQuality sharp this format 5 of
                   Inl err \<Rightarrow> (Inl err, fs)
                 | Inr buffer \<Rightarrow> (Inr outputPath, writeFile fs outputPath buffer))))
      \<and> (format \<in> set [''jpeg'', ''jpg'', ''webp'', ''avif'']
           \<and> (\<forall>q. 5 \<le> q \<and> q \<le> 95 \<longrightarrow> compressWithQuality sharp this format q = Inr (enc q))
           \<and> (\<forall>q q'. 5 \<le> q \<and> q \<le> q' \<and> q' \<le> 95 \<longrightarrow> length (enc q) \<le> length (enc q'))
         \<longrightarrow> (\<exists>q. 5 \<le> q \<and> q \<le> 95
                \<and> extremeCompressionParallel sharp toFile encodeStrategy this fs outputPath
                     format keepDims strategy targetSize =
                   (Inr outputPath, writeFile fs outputPath (enc q))
                \<and> ((length (enc q) \<le> targetSize
                      \<and> (\<forall>q'. 5 \<le> q' \<and> q' \<le> 95 \<and> length (enc q') \<le> targetSize
                             \<longrightarrow> q' \<le> q))
                   \<or> (q = 5
                      \<and> (\<forall>q'. 5 \<le> q' \<and> q' \<le> 95 \<longrightarrow> \<not> length (enc q') \<le> targetSize)))))
      \<and> (format = ''png'' \<longrightarrow>
           extremeCompressionParallel sharp toFile encodeStrategy this fs outputPath format
             keepDims strategy targetSize =
           (case png_try sharp targetSize png_configs of
              Inl err \<Rightarrow> (Inl err, fs)
            | Inr (Some buffer) \<Rightarrow> (Inr outputPath, writeFile fs outputPath buffer)
            | Inr None \<Rightarrow>
                (case sharp ''png'' (png_configs ! 0) of
                   Inl err \<Rightarrow> (Inl err, fs)
                 | Inr buffer \<Rightarrow> (Inr outputPath, writeFile fs outputPath buffer))))
      \<and> (format = ''png'' \<and> sharp ''png'' (png_configs ! 0) = Inr first
           \<and> length first \<le> targetSize \<longrightarrow>
           extremeCompressionParallel sharp toFile encodeStrategy this fs outputPath format
             keepDims strategy targetSize =
           (Inr outputPath, writeFile fs outputPath first))
      \<and> (format \<notin> set [''jpeg'', ''jpg'', ''webp'', ''avif'', ''png''] \<longrightarrow>
           extremeCompressionParallel sharp toFile encodeStrategy this fs outputPath format
             keepDims strategy targetSize =
           (case toFile outputPath of
              Inl err \<Rightarrow> (Inl err, fs)
            | Inr bytes \<Rightarrow> (Inr outputPath, writeFile fs outputPath bytes))))"
  (is "?route \<and> (?some \<longrightarrow> ?select) \<and> (\<not> ?some \<longrightarrow> ?fallback)")
proof -
  let ?xs = "successful_outcomes encodeStrategy keepDims format targetSize"
  let ?strat = "if strategy = [] then ''auto'' else strategy"
  have route: ?route
  proof
    assume a: "originalSize \<noteq> 0 \<and> 10 * targetSize < originalSize"
    then have "rat_of_nat (10 * targetSize) < rat_of_nat originalSize"
      by (simp only: of_nat_less_iff)
    then have "rat_of_nat targetSize / rat_of_nat originalSize < 0.10"
      using a by (simp add: field_simps)
    with a show "compressToTargetSizeFile sharp toFile encodeStrategy this fs outputPath format
        keepDims strategy originalSize targetSize =
      extremeCompressionParallel sharp toFile encodeStrategy this fs outputPath format keepDims
        strategy targetSize"
      by (simp add: compressToTargetSizeFile_def)
  qed
  have select: ?select if some: ?some
  proof -
    have ne: "?xs \<noteq> []" using some by (simp add: successful_outcomes_Nil_iff)
    from selectBestResult_policy[OF ne successful_outcomes_success successful_outcomes_least[OF ne],
        of ?strat targetSize]
    obtain s b t where
          mem: "Success s b t \<in> set ?xs"
      and sel: "selectBestResult ?xs ?strat targetSize = Inr (Some (Success s b t))"
      and size: "?strat = ''size'' \<longrightarrow>
            (\<forall>s' b' t'. Success s' b' t' \<in> set ?xs \<longrightarrow> length b \<le> length b')"
      and speed: "?strat = ''speed'' \<longrightarrow>
            (\<forall>s' b' t'. Success s' b' t' \<in> set ?xs \<longrightarrow> t \<le> t')"
      and quality: "?strat = ''quality'' \<longrightarrow>
            (\<forall>s' b' t'. Success s' b' t' \<in> set ?xs \<longrightarrow> length b' \<le> length b)"
      and auto: "?strat \<noteq> ''size'' \<and> ?strat \<noteq> ''speed'' \<and> ?strat \<noteq> ''quality'' \<longrightarrow>
            ((\<forall>s' b' t'. Success s' b' t' \<in> set ?xs \<longrightarrow> 100 * length b' \<le> 95 * targetSize) \<longrightarrow>
               (\<forall>s' b' t'. Success s' b' t' \<in> set ?xs \<longrightarrow> length b' \<le> length b))
          \<and> ((\<exists>s' b' t'. Success s' b' t' \<in> set ?xs \<and> \<not> 100 * length b' \<le> 95 * targetSize) \<longrightarrow>
               (\<forall>s' b' t'. Success s' b' t' \<in> set ?xs \<longrightarrow> length b \<le> length b'))"
      by blast
    have run: "extremeCompressionParallel sharp toFile encodeStrategy this fs outputPath format
          keepDims strategy targetSize =
        (Inr (replace_ext outputPath (getExtensionForFormat (strat_format s))),
         writeFile fs (replace_ext outputPath (getExtensionForFormat (strat_format s))) b)"
      using ne sel by (simp add: extremeCompressionParallel_def Let_def)
    have ub: "under_budget encodeStrategy keepDims format targetSize s b t"
      using mem by (simp only: Success_in_successful_outcomes)
    have p1: "strategy = ''size'' \<longrightarrow>
        (\<forall>s' b' t'. under_budget encodeStrategy keepDims format targetSize s' b' t'
           \<longrightarrow> length b \<le> length b')"
      using size by (simp add: Success_in_successful_outcomes)
    have p2: "strategy = ''speed'' \<longrightarrow>
        (\<forall>s' b' t'. under_budget encodeStrategy keepDims format targetSize s' b' t'
           \<longrightarrow> t \<le> t')"
      using speed by (simp add: Success_in_successful_outcomes)
    have p3: "strategy = ''quality'' \<longrightarrow>
        (\<forall>s' b' t'. under_budget encodeStrategy keepDims format targetSize s' b' t'
           \<longrightarrow> length b' \<le> length b)"
      using quality by (simp add: Success_in_successful_outcomes)
    have p4: "strategy \<noteq> ''size'' \<and> strategy \<noteq> ''speed'' \<and> strategy \<noteq> ''quality'' \<longrightarrow>
        ((\<forall>s' b' t'. under_budget encodeStrategy keepDims format targetSize s' b' t'
            \<longrightarrow> 100 * length b' \<le> 95 * targetSize) \<longrightarrow>
         (\<forall>s' b' t'. under_budget encodeStrategy keepDims format targetSize s' b' t'
            \<longrightarrow> length b' \<le> length b))
      \<and> ((\<exists>s' b' t'. under_budget encodeStrategy keepDims format targetSize s' b' t'
            \<and> \<not> 100 * length b' \<le> 95 * targetSize) \<longrightarrow>
         (\<forall>s' b' t'. under_budget encodeStrategy keepDims format targetSize s' b' t'
            \<longrightarrow> length b \<le> length b'))"
    proof
      assume other: "strategy \<noteq> ''size'' \<and> strategy \<noteq> ''speed'' \<and> strategy \<noteq> ''quality''"
      then have other': "?strat \<noteq> ''size'' \<and> ?strat \<noteq> ''speed'' \<and> ?strat \<noteq> ''quality''" by simp
      from auto other' have
        "((\<forall>s' b' t'. Success s' b' t' \<in> set ?xs \<longrightarrow> 100 * length b' \<le> 95 * targetSize) \<longrightarrow>
               (\<forall>s' b' t'. Success s' b' t' \<in> set ?xs \<longrightarrow> length b' \<le> length b))
          \<and> ((\<exists>s' b' t'. Success s' b' t' \<in> set ?xs \<and> \<not> 100 * length b' \<le> 95 * targetSize) \<longrightarrow>
               (\<forall>s' b' t'. Success s' b' t' \<in> set ?xs \<longrightarrow> length b \<le> length b'))"
        by (rule mp)
      then show "((\<forall>s' b' t'. under_budget encodeStrategy keepDims format targetSize s' b' t'
            \<longrightarrow> 100 * length b' \<le> 95 * targetSize) \<longrightarrow>
         (\<forall>s' b' t'. under_budget encodeStrategy keepDims format targetSize s' b' t'
            \<longrightarrow> length b' \<le> length b))
      \<and> ((\<exists>s' b' t'. under_budget encodeStrategy keepDims format targetSize s' b' t'
            \<and> \<not> 100 * length b' \<le> 95 * targetSize) \<longrightarrow>
         (\<forall>s' b' t'. under_budget encodeStrategy keepDims format targetSize s' b' t'
            \<longrightarrow> length b \<le> length b'))"
        by (simp only: Success_in_successful_outcomes)
    qed
    show ?select
      by (intro exI[of _ s] exI[of _ b] exI[of _ t] conjI ub run p1 p2 p3 p4)
  qed
  have fallback: ?fallback if none: "\<not> ?some"
  proof -
    let ?run = "extremeCompressionParallel sharp toFile encodeStrategy this fs outputPath format
             keepDims strategy targetSize"
    have "?xs = []" using none by (simp add: successful_outcomes_Nil_iff)
    then have std: "?run = standardCompression sharp toFile this fs outputPath format targetSize"
      by (simp add: extremeCompressionParallel_def)
    have search: "format \<in> set [''jpeg'', ''jpg'', ''webp'', ''avif''] \<longrightarrow>
           ?run =
           (case bs_loop sharp this format targetSize 5 95 None 0 [] of
              (Inl err, tested) \<Rightarrow> (Inl err, fs)
            | (Inr (Some bestBuffer), tested) \<Rightarrow>
                (Inr outputPath, writeFile fs outputPath bestBuffer)
            | (Inr None, tested) \<Rightarrow>
                (case compressWithQuality sharp this format 5 of
                   Inl err \<Rightarrow> (Inl err, fs)
                 | Inr buffer \<Rightarrow> (Inr outputPath, writeFile fs outputPath buffer)))"
      unfolding std
      by (auto simp: standardCompression_def binarySearchQuality_def
            split: prod.splits sum.splits option.splits)
    have found: "format \<in> set [''jpeg'', ''jpg'', ''webp'', ''avif'']
           \<and> (\<forall>q. 5 \<le> q \<and> q \<le> 95 \<longrightarrow> compressWithQuality sharp this format q = Inr (enc q))
           \<and> (\<forall>q q'. 5 \<le> q \<and> q \<le> q' \<and> q' \<le> 95 \<longrightarrow> length (enc q) \<le> length (enc q'))
         \<longrightarrow> (\<exists>q. 5 \<le> q \<and> q \<le> 95
                \<and> ?run = (Inr outputPath, writeFile fs outputPath (enc q))
                \<and> ((length (enc q) \<le> targetSize
                      \<and> (\<forall>q'. 5 \<le> q' \<and> q' \<le> 95 \<and> length (enc q') \<le> targetSize
                             \<longrightarrow> q' \<le> q))
                   \<or> (q = 5
                      \<and> (\<forall>q'. 5 \<le> q' \<and> q' \<le> 95 \<longrightarrow> \<not> length (enc q') \<le> targetSize))))"
    proof
      assume a: "format \<in> set [''jpeg'', ''jpg'', ''webp'', ''avif'']
           \<and> (\<forall>q. 5 \<le> q \<and> q \<le> 95 \<longrightarrow> compressWithQuality sharp this format q = Inr (enc q))
           \<and> (\<forall>q q'. 5 \<le> q \<and> q \<le> q' \<and> q' \<le> 95 \<longrightarrow> length (enc q) \<le> length (enc q'))"
      then have fmt: "format \<in> set [''jpeg'', ''jpg'', ''webp'', ''avif'']" by (rule conjunct1)
      have e: "compressWithQuality sharp this format q = Inr (enc q)" if "5 \<le> q" "q \<le> 95" for q
        using a that by blast
      have m: "length (enc q) \<le> length (enc q')" if "5 \<le> q" "q \<le> q'" "q' \<le> 95" for q q'
        using a that by blast
      from binarySearchQuality_writes [of sharp this format enc fs outputPath targetSize, OF e m]
      obtain q tested where q: "5 \<le> q" "q \<le> 95"
        and bsq: "binarySearchQuality sharp this fs outputPath format targetSize =
                    (Inr outputPath, writeFile fs outputPath (enc q), tested)"
        and alt: "(length (enc q) \<le> targetSize
                      \<and> (\<forall>q'. 5 \<le> q' \<and> q' \<le> 95 \<and> length (enc q') \<le> targetSize
                             \<longrightarrow> q' \<le> q))
                   \<or> (q = 5
                      \<and> (\<forall>q'. 5 \<le> q' \<and> q' \<le> 95 \<longrightarrow> \<not> length (enc q') \<le> targetSize))"
        by blast
      have "standardCompression sharp toFile this fs outputPath format targetSize =
              (Inr outputPath, writeFile fs outputPath (enc q))"
        using fmt bsq unfolding standardCompression_def by (simp only: if_True prod.case)
      then have "?run = (Inr outputPath, writeFile fs outputPath (enc q))"
        by (simp only: std)
      with q alt show "\<exists>q. 5 \<le> q \<and> q \<le> 95
                \<and> ?run = (Inr outputPath, writeFile fs outputPath (enc q))
                \<and> ((length (enc q) \<le> targetSize
                      \<and> (\<forall>q'. 5 \<le> q' \<and> q' \<le> 95 \<and> length (enc q') \<le> targetSize
                             \<longrightarrow> q' \<le> q))
                   \<or> (q = 5
                      \<and> (\<forall>q'. 5 \<le> q' \<and> q' \<le> 95 \<longrightarrow> \<not> length (enc q') \<le> targetSize)))"
        by (intro exI[of _ q] conjI)
    qed
    have png: "format = ''png'' \<longrightarrow>
           ?run =
           (case png_try sharp targetSize png_configs of
              Inl err \<Rightarrow> (Inl err, fs)
            | Inr (Some buffer) \<Rightarrow> (Inr outputPath, writeFile fs outputPath buffer)
            | Inr None \<Rightarrow>
                (case sharp ''png'' (png_configs ! 0) of
                   Inl err \<Rightarrow> (Inl err, fs)
                 | Inr buffer \<Rightarrow> (Inr outputPath, writeFile fs outputPath buffer)))"
      unfolding std by (simp add: standardCompression_def optimizePNG_def)
    have png_first: "format = ''png'' \<and> sharp ''png'' (png_configs ! 0) = Inr first
           \<and> length first \<le> targetSize \<longrightarrow>
           ?run = (Inr outputPath, writeFile fs outputPath first)"
    proof
      assume a: "format = ''png'' \<and> sharp ''png'' (png_configs ! 0) = Inr first
           \<and> length first \<le> targetSize"
      have "png_try sharp targetSize png_configs = Inr (Some first)"
        using a by (intro png_try_first_fit [of 0]) (simp_all add: png_configs_def)
      with a show "?run = (Inr outputPath, writeFile fs outputPath first)"
        unfolding std by (simp add: standardCompression_def optimizePNG_def)
    qed
    have other: "format \<notin> set [''jpeg'', ''jpg'', ''webp'', ''avif'', ''png''] \<longrightarrow>
           ?run =
           (case toFile outputPath of
              Inl err \<Rightarrow> (Inl err, fs)
            | Inr bytes \<Rightarrow> (Inr outputPath, writeFile fs outputPath bytes))"
      unfolding std by (simp add: standardCompression_def)
    from search found png png_first other show ?thesis by (intro conjI)
  qed
  show ?thesis
  proof (rule conjI[OF route], rule conjI)
    show "?some \<longrightarrow> ?select" by (rule impI) (rule select)
    show "\<not> ?some \<longrightarrow> ?fallback" by (rule impI) (rule fallback)
  qed
qed


lemma catalog_webp_outcomes:
  "map (testStrategy catalog_encoder) (generateCompressionStrategies True ''webp'') =
     [Success (mk_strategy ''webp'' 10 (Some 6)) (replicate 10 0) 6,
      Success (mk_strategy ''webp'' 20 (Some 4)) (replicate 20 0) 4,
      Success (mk_strategy ''webp'' 30 (Some 2)) (replicate 30 0) 2]"
  by (simp add: generateCompressionStrategies_def format_strategies_def testStrategy_def
        catalog_encoder_def mk_strategy_def)

lemma catalog_webp_successful:
  "successful_outcomes catalog_encoder True ''webp'' 25 =
     [Success (mk_strategy ''webp'' 10 (Some 6)) (replicate 10 0) 6,
      Success (mk_strategy ''webp'' 20 (Some 4)) (replicate 20 0) 4]"
  "successful_outcomes catalog_encoder True ''webp'' 20 =
     [Success (mk_strategy ''webp'' 10 (Some 6)) (replicate 10 0) 6,
      Success (mk_strategy ''webp'' 20 (Some 4)) (replicate 20 0) 4]"
  "successful_outcomes catalog_encoder True ''webp'' 5 = []"
  unfolding successful_outcomes_def Let_def catalog_webp_outcomes
  by (simp_all add: sort_by_def by_size_def)

text \<open>
  The theorem at work with the synthetic catalog (WebP strategies of 10, 20 and 30
  bytes): each policy at a target of 25 bytes, the default policy at a target of 20, the
  routing below a tenth of the original size, and the fallback at a target of 5 bytes,
  where no catalog strategy fits and the binary search writes the encode at quality 5.
\<close>

theorem extreme_path_selection_witness:
  "under_budget catalog_encoder True ''webp'' 25 (mk_strategy ''webp'' 10 (Some 6)) (replicate 10 0) 6
   \<and> under_budget catalog_encoder True ''webp'' 25 (mk_strategy ''webp'' 20 (Some 4)) (replicate 20 0) 4
   \<and> \<not> under_budget catalog_encoder True ''webp'' 25 (mk_strategy ''webp'' 30 (Some 2)) (replicate 30 0) 2
   \<and> extremeCompressionParallel synthetic_codec (\<lambda>p. Inl ''no format'') catalog_encoder
        \<lparr>speedOptimized = False, skipOptimizations = False\<rparr> Map.empty ''photo.png'' ''webp'' True
        ''size'' 25 =
      (Inr ''photo.webp'', writeFile Map.empty ''photo.webp'' (replicate 10 0))
   \<and> extremeCompressionParallel synthetic_codec (\<lambda>p. Inl ''no format'') catalog_encoder
        \<lparr>speedOptimized = False, skipOptimizations = False\<rparr> Map.empty ''photo.png'' ''webp'' True
        ''speed'' 25 =
      (Inr ''photo.webp'', writeFile Map.empty ''photo.webp'' (replicate 20 0))
   \<and> extremeCompressionParallel synthetic_codec (\<lambda>p. Inl ''no format'') catalog_encoder
        \<lparr>speedOptimized = False, skipOptimizations = False\<rparr> Map.empty ''photo.png'' ''webp'' True
        ''quality'' 25 =
      (Inr ''photo.webp'', writeFile Map.empty ''photo.webp'' (replicate 20 0))
   \<and> extremeCompressionParallel synthetic_codec (\<lambda>p. Inl ''no format'') catalog_encoder
        \<lparr>speedOptimized = False, skipOptimizations = False\<rparr> Map.empty ''photo.png'' ''webp'' True
        ''auto'' 25 =
      (Inr ''photo.webp'', writeFile Map.empty ''photo.webp'' (replicate 20 0))
   \<and> extremeCompressionParallel synthetic_codec (\<lambda>p. Inl ''no format'') catalog_encoder
        \<lparr>speedOptimized = False, skipOptimizations = False\<rparr> Map.empty ''photo.png'' ''webp'' True
        ''auto'' 20 =
      (Inr ''photo.webp'', writeFile Map.empty ''photo.webp'' (replicate 10 0))
   \<and> (1000::nat) \<noteq> 0 \<and> (10::nat) * 25 < 1000
   \<and> compressToTargetSizeFile synthetic_codec (\<lambda>p. Inl ''no format'') catalog_encoder
        \<lparr>speedOptimized = False, skipOptimizations = False\<rparr> Map.empty ''photo.png'' ''webp'' True
        ''size'' 1000 25 =
      (Inr ''photo.webp'', writeFile Map.empty ''photo.webp'' (replicate 10 0))
   \<and> \<not> (\<exists>s b t. under_budget catalog_encoder True ''webp'' 5 s b t)
   \<and> (\<forall>q. compressWithQuality synthetic_codec
              \<lparr>speedOptimized = False, skipOptimizations = False\<rparr> ''webp'' q =
            Inr (replicate (nat q) 0))
   \<and> bs_loop synthetic_codec \<lparr>speedOptimized = False, skipOptimizations = False\<rparr>
        ''webp'' 5 5 95 None 0 [] = (Inr (Some (replicate 5 0)), [50, 27, 15, 9, 6, 5])
   \<and> extremeCompressionParallel synthetic_codec (\<lambda>p. Inl ''no format'') catalog_encoder
        \<lparr>speedOptimized = False, skipOptimizations = False\<rparr> Map.empty ''photo.png'' ''webp'' True
        ''size'' 5 =
      (Inr ''photo.png'', writeFile Map.empty ''photo.png'' (replicate 5 0))"
proof -
  let ?cmp = "\<lparr>speedOptimized = False, skipOptimizations = False\<rparr>"
  let ?toFile = "\<lambda>p::string. (Inl ''no format'' :: string + buffer)"
  have ub: "under_budget catalog_encoder True ''webp'' 25 s b t \<longleftrightarrow>
      (s, b, t) \<in> {(mk_strategy ''webp'' 10 (Some 6), replicate 10 0, 6),
                    (mk_strategy ''webp'' 20 (Some 4), replicate 20 0, 4)}" for s b t
    using Success_in_successful_outcomes[of s b t catalog_encoder True "''webp''" 25]
    by (auto simp: catalog_webp_successful)
  have none: "\<not> (\<exists>s b t. under_budget catalog_encoder True ''webp'' 5 s b t)"
    using successful_outcomes_Nil_iff[of catalog_encoder True "''webp''" 5]
    by (simp add: catalog_webp_successful)
  have run: "extremeCompressionParallel synthetic_codec ?toFile catalog_encoder ?cmp Map.empty
        ''photo.png'' ''webp'' True ''size'' 25 =
      (Inr ''photo.webp'', writeFile Map.empty ''photo.webp'' (replicate 10 0))"
      "extremeCompressionParallel synthetic_codec ?toFile catalog_encoder ?cmp Map.empty
        ''photo.png'' ''webp'' True ''speed'' 25 =
      (Inr ''photo.webp'', writeFile Map.empty ''photo.webp'' (replicate 20 0))"
      "extremeCompressionParallel synthetic_codec ?toFile catalog_encoder ?cmp Map.empty
        ''photo.png'' ''webp'' True ''quality'' 25 =
      (Inr ''photo.webp'', writeFile Map.empty ''photo.webp'' (replicate 20 0))"
      "extremeCompressionParallel synthetic_codec ?toFile catalog_encoder ?cmp Map.empty
        ''photo.png'' ''webp'' True ''auto'' 25 =
      (Inr ''photo.webp'', writeFile Map.empty ''photo.webp'' (replicate 20 0))"
      "extremeCompressionParallel synthetic_codec ?toFile catalog_encoder ?cmp Map.empty
        ''photo.png'' ''webp'' True ''auto'' 20 =
      (Inr ''photo.webp'', writeFile Map.empty ''photo.webp'' (replicate 10 0))"
    by (simp_all add: extremeCompressionParallel_def catalog_webp_successful selectBestResult_def
          sort_by_def by_time_def by_size_desc_def qualityUtil_def mk_strategy_def
          getExtensionForFormat_def replace_ext_def Let_def)
  have route: "compressToTargetSizeFile synthetic_codec ?toFile catalog_encoder ?cmp Map.empty
        ''photo.png'' ''webp'' True ''size'' 1000 25 =
      extremeCompressionParallel synthetic_codec ?toFile catalog_encoder ?cmp Map.empty
        ''photo.png'' ''webp'' True ''size'' 25"
    using extreme_path_selection [where originalSize = 1000 and targetSize = 25
        and sharp = synthetic_codec and toFile = ?toFile and encodeStrategy = catalog_encoder
        and this = ?cmp and fs = Map.empty and outputPath = "''photo.png''"
        and format = "''webp''" and keepDims = True and strategy = "''size''", THEN conjunct1]
    by simp
  have enc: "compressWithQuality synthetic_codec ?cmp ''webp'' q = Inr (replicate (nat q) 0)" for q
    by (simp add: compressWithQuality_def getCompressionOptions_def synthetic_codec_def
          toLowerCase_def lower_char_def)
  have loop: "bs_loop synthetic_codec ?cmp ''webp'' 5 5 95 None 0 [] =
      (Inr (Some (replicate 5 0)), [50, 27, 15, 9, 6, 5])"
    by (simp add: bs_loop.simps enc maxAttempts_def)
  have fallback: "extremeCompressionParallel synthetic_codec ?toFile catalog_encoder ?cmp Map.empty
        ''photo.png'' ''webp'' True ''size'' 5 =
      (Inr ''photo.png'', writeFile Map.empty ''photo.png'' (replicate 5 0))"
    using extreme_path_selection [where originalSize = 1000 and targetSize = 5
        and sharp = synthetic_codec and toFile = ?toFile and encodeStrategy = catalog_encoder
        and this = ?cmp and fs = Map.empty and outputPath = "''photo.png''"
        and format = "''webp''" and keepDims = True and strategy = "''size''",
        THEN conjunct2, THEN conjunct2, rule_format, OF none, THEN conjunct1]
    by (simp add: loop)
  show ?thesis
    using ub none run route enc loop fallback by simp
qed

section \<open>Automatic format selection\<close>

lemma hd_sort_by_fr_size:
  assumes "xs \<noteq> []"
  shows "hd (sort_by by_fr_size xs) \<in> set xs
       \<and> (\<forall>y \<in> set xs. fr_size (hd (sort_by by_fr_size xs)) \<le> fr_size y)"
proof -
  have "hd (sort_by by_fr_size xs) \<in> set xs
      \<and> (\<forall>y \<in> set xs. by_fr_size (hd (sort_by by_fr_size xs)) y)"
  proof (rule hd_sort_by_least)
    show "by_fr_size a b \<or> by_fr_size b a" for a b
      unfolding by_fr_size_def by (rule linear)
    show "by_fr_size a c" if "by_fr_size a b" "by_fr_size b c" for a b c
      using that unfolding by_fr_size_def by (rule order_trans)
    show "xs \<noteq> []" by (rule assms)
  qed
  then show ?thesis by (simp add: by_fr_size_def)
qed

lemma build_formats_no_throw:
  "\<forall>c \<in> set cs. \<not> start_throws start c \<Longrightarrow>
   build_formats start cs = Inr (map (\<lambda>(f, ext, opts). (f, ext, awaited start f opts)) cs)"
proof (induction cs)
  case Nil
  show ?case by simp
next
  case (Cons c rest)
  obtain f ext opts where c: "c = (f, ext, opts)" by (cases c)
  from Cons.prems have rest: "\<forall>c \<in> set rest. \<not> start_throws start c" by simp
  from Cons.prems c have nt: "\<not> start_throws start (f, ext, opts)" by simp
  show ?case
    using nt by (cases "start f opts") (simp_all add: c Cons.IH [OF rest] awaited_def start_throws_def)
qed

lemma build_formats_throw:
  "\<exists>c \<in> set cs. start_throws start c \<Longrightarrow>
   \<exists>err. build_formats start cs = Inl err
        \<and> (\<exists>c \<in> set cs. start (fst c) (snd (snd c)) = Throws err)"
proof (induction cs)
  case Nil
  then show ?case by simp
next
  case (Cons c rest)
  obtain f ext opts where c: "c = (f, ext, opts)" by (cases c)
  show ?case
  proof (cases "start f opts")
    case (Throws err)
    then show ?thesis by (intro exI[of _ err]) (simp add: c)
  next
    case (Rejects err)
    then have "\<not> start_throws start c" by (simp add: c start_throws_def)
    with Cons.prems have "\<exists>c \<in> set rest. start_throws start c" by simp
    from Cons.IH [OF this] obtain e where
      e: "build_formats start rest = Inl e" "\<exists>c \<in> set rest. start (fst c) (snd (snd c)) = Throws e"
      by blast
    then show ?thesis using Rejects by (intro exI[of _ e]) (simp add: c)
  next
    case (Resolves b)
    then have "\<not> start_throws start c" by (simp add: c start_throws_def)
    with Cons.prems have "\<exists>c \<in> set rest. start_throws start c" by simp
    from Cons.IH [OF this] obtain e where
      e: "build_formats start rest = Inl e" "\<exists>c \<in> set rest. start (fst c) (snd (snd c)) = Throws e"
      by blast
    then show ?thesis using Resolves by (intro exI[of _ e]) (simp add: c)
  qed
qed

lemma format_results_no_throw:
  assumes "\<forall>c \<in> set (format_candidates hasAlpha quality). \<not> start_throws start c"
  shows "format_results start hasAlpha quality = Inr (race_results start hasAlpha quality)"
  by (simp add: format_results_def build_formats_no_throw [OF assms] race_results_def
        split_def comp_def)

lemma findBestFormat_cases:
  assumes "format_results start hasAlpha quality = Inr results"
  shows "findBestFormat start hasAlpha quality originalSize =
     Inr (if filter (qualifies originalSize) results = [] then results ! 0
          else hd (sort_by by_fr_size (filter (qualifies originalSize) results)))"
proof -
  let ?q = "filter (qualifies originalSize) results"
  show ?thesis
  proof (cases "sort_by by_fr_size ?q")
    case Nil
    then have "?q = []" by (simp add: sort_by_Nil_iff)
    with Nil show ?thesis by (simp add: findBestFormat_def assms)
  next
    case (Cons best rest)
    then have "?q \<noteq> []" using sort_by_Nil_iff[of by_fr_size ?q] by simp
    with Cons show ?thesis by (simp add: findBestFormat_def assms)
  qed
qed

lemma race_results_first:
  "race_results start hasAlpha quality ! 0 =
     FormatResult ''avif'' ''.avif''
       (awaited start ''avif'' [(''quality'', Num (max 20 (quality - 35))), (''effort'', Num 4),
                        (''chromaSubsampling'', Str ''4:2:0'')])"
  by (simp add: race_results_def format_candidates_def)

lemma qualifies_iff:
  "qualifies originalSize (FormatResult f ext (Inr b)) \<longleftrightarrow> 20 * length b < 19 * originalSize"
  "\<not> qualifies originalSize (FormatResult f ext (Inl err))"
proof -
  have "(rat_of_nat (length b) < rat_of_nat originalSize * 0.95)
      = (rat_of_nat (20 * length b) < rat_of_nat (19 * originalSize))"
    by (simp add: field_simps)
  also have "\<dots> = (20 * length b < 19 * originalSize)" by (rule of_nat_less_iff)
  finally show "qualifies originalSize (FormatResult f ext (Inr b))
      \<longleftrightarrow> 20 * length b < 19 * originalSize"
    by (simp add: qualifies_def)
  show "\<not> qualifies originalSize (FormatResult f ext (Inl err))"
    by (simp add: qualifies_def)
qed

text \<open>
  Claim C6, as amended. With no target size and the format \<^verbatim>\<open>auto\<close> or unspecified,
  \<^verbatim>\<open>compressToFile\<close> writes what \<^verbatim>\<open>findBestFormat\<close> selects. The candidates are AVIF,
  WebP, JPEG only without an alpha channel, and PNG only with alpha or a quality above 90;
  each is encoded at the requested quality, except AVIF, which is encoded at
  \<open>max 20 (quality - 35)\<close>. When starting the encode of a candidate throws, the whole
  selection ends with an error thrown by a candidate and nothing is written. When every
  encode could be started, the selection is a smallest result among those that did not
  fail and are strictly smaller than 95% of the original size; when there is none, it is
  the first candidate, AVIF.
\<close>

theorem auto_format_selection:
  "((targetSize = None \<or> targetSize = Some 0)
      \<and> (opt_format options = None \<or> opt_format options = Some ''auto''
           \<or> opt_format options = Some [])
      \<and> quality = (case opt_quality options of
                      None \<Rightarrow> 85 | Some q \<Rightarrow> if q = 0 then 85 else q) \<longrightarrow>
      compressToFile start toFile encodeStrategy extname this fs outputPath options targetSize
        originalSize hasAlpha =
      (case findBestFormat start hasAlpha quality originalSize of
         Inl err \<Rightarrow> (Inl err, fs)
       | Inr best \<Rightarrow>
           (case fr_outcome best of
              Inl err \<Rightarrow> (Inl ''TypeError: The data argument must be a Buffer'', fs)
            | Inr buffer \<Rightarrow>
                (Inr (replace_ext outputPath (fr_extension best)),
                 writeFile fs (replace_ext outputPath (fr_extension best)) buffer))))
   \<and> map fst (format_candidates hasAlpha quality) =
        [''avif'', ''webp''] @ (if \<not> hasAlpha then [''jpeg''] else [])
          @ (if hasAlpha \<or> quality > 90 then [''png''] else [])
   \<and> (\<forall>(f, ext, opts) \<in> set (format_candidates hasAlpha quality).
          map_of opts ''quality'' =
            Some (Num (if f = ''avif'' then max 20 (quality - 35) else quality)))
   \<and> (\<forall>f ext b. qualifies originalSize (FormatResult f ext (Inr b))
          \<longleftrightarrow> 20 * length b < 19 * originalSize)
   \<and> (\<forall>f ext err. \<not> qualifies originalSize (FormatResult f ext (Inl err)))
   \<and> ((\<exists>c \<in> set (format_candidates hasAlpha quality). start_throws start c) \<longrightarrow>
          (\<exists>err. findBestFormat start hasAlpha quality originalSize = Inl err
               \<and> (\<exists>c \<in> set (format_candidates hasAlpha quality).
                     start (fst c) (snd (snd c)) = Throws err)))
   \<and> ((\<forall>c \<in> set (format_candidates hasAlpha quality). \<not> start_throws start c) \<longrightarrow>
          format_results start hasAlpha quality = Inr (race_results start hasAlpha quality)
        \<and> map fr_format (race_results start hasAlpha quality) =
            map fst (format_candidates hasAlpha quality)
        \<and> (\<exists>best. findBestFormat start hasAlpha quality originalSize = Inr best
             \<and> ((\<exists>r \<in> set (race_results start hasAlpha quality). qualifies originalSize r) \<longrightarrow>
                   best \<in> set (race_results start hasAlpha quality)
                 \<and> qualifies originalSize best
                 \<and> (\<forall>r \<in> set (race_results start hasAlpha quality).
                       qualifies originalSize r \<longrightarrow> fr_size best \<le> fr_size r))
             \<and> (\<not> (\<exists>r \<in> set (race_results start hasAlpha quality). qualifies originalSize r)
                   \<longrightarrow> best = race_results start hasAlpha quality ! 0
                     \<and> fr_format best = ''avif'')))"
  (is "?gate \<and> ?names \<and> ?qualities \<and> ?strict \<and> ?failed \<and> ?throws \<and> ?races")
proof -
  let ?results = "race_results start hasAlpha quality"
  let ?q = "filter (qualifies originalSize) ?results"
  have gate: ?gate
    by (auto simp: compressToFile_def Let_def split: option.splits sum.splits)
  have names: ?names
    by (simp add: format_candidates_def)
  have qualities: ?qualities
    by (auto simp: format_candidates_def)
  have strict: ?strict
    by (simp add: qualifies_iff)
  have failed: ?failed
    by (simp add: qualifies_iff)
  have throws: ?throws
  proof
    assume "\<exists>c \<in> set (format_candidates hasAlpha quality). start_throws start c"
    from build_formats_throw [OF this] obtain err where
      err: "build_formats start (format_candidates hasAlpha quality) = Inl err"
        "\<exists>c \<in> set (format_candidates hasAlpha quality). start (fst c) (snd (snd c)) = Throws err"
      by blast
    from err(1) have "findBestFormat start hasAlpha quality originalSize = Inl err"
      by (simp add: findBestFormat_def format_results_def)
    with err(2) show "\<exists>err. findBestFormat start hasAlpha quality originalSize = Inl err
               \<and> (\<exists>c \<in> set (format_candidates hasAlpha quality).
                     start (fst c) (snd (snd c)) = Throws err)"
      by blast
  qed
  have races: ?races
  proof
    assume nt: "\<forall>c \<in> set (format_candidates hasAlpha quality). \<not> start_throws start c"
    have res: "format_results start hasAlpha quality = Inr ?results"
      by (rule format_results_no_throw [OF nt])
    have nm: "map fr_format ?results = map fst (format_candidates hasAlpha quality)"
      by (simp add: race_results_def format_candidates_def)
    let ?best = "if ?q = [] then ?results ! 0 else hd (sort_by by_fr_size ?q)"
    have best: "findBestFormat start hasAlpha quality originalSize = Inr ?best"
      by (rule findBestFormat_cases [OF res])
    have sel: "(\<exists>r \<in> set ?results. qualifies originalSize r) \<longrightarrow>
                   ?best \<in> set ?results
                 \<and> qualifies originalSize ?best
                 \<and> (\<forall>r \<in> set ?results. qualifies originalSize r \<longrightarrow> fr_size ?best \<le> fr_size r)"
    proof
      assume "\<exists>r \<in> set ?results. qualifies originalSize r"
      then have ne: "?q \<noteq> []" by (simp add: filter_empty_conv)
      from hd_sort_by_fr_size [OF ne] ne show "?best \<in> set ?results
                 \<and> qualifies originalSize ?best
                 \<and> (\<forall>r \<in> set ?results. qualifies originalSize r \<longrightarrow> fr_size ?best \<le> fr_size r)"
        by simp
    qed
    have fb: "\<not> (\<exists>r \<in> set ?results. qualifies originalSize r)
                   \<longrightarrow> ?best = ?results ! 0 \<and> fr_format ?best = ''avif''"
    proof
      assume "\<not> (\<exists>r \<in> set ?results. qualifies originalSize r)"
      then have "?q = []" by (simp add: filter_empty_conv)
      then show "?best = ?results ! 0 \<and> fr_format ?best = ''avif''"
        by (simp add: race_results_first)
    qed
    from best sel fb have "\<exists>best. findBestFormat start hasAlpha quality originalSize = Inr best
             \<and> ((\<exists>r \<in> set ?results. qualifies originalSize r) \<longrightarrow>
                   best \<in> set ?results
                 \<and> qualifies originalSize best
                 \<and> (\<forall>r \<in> set ?results. qualifies originalSize r \<longrightarrow> fr_size best \<le> fr_size r))
             \<and> (\<not> (\<exists>r \<in> set ?results. qualifies originalSize r)
                   \<longrightarrow> best = ?results ! 0 \<and> fr_format best = ''avif'')"
      by (intro exI [of _ ?best] conjI)
    with res nm show "format_results start hasAlpha quality = Inr ?results
        \<and> map fr_format ?results = map fst (format_candidates hasAlpha quality)
        \<and> (\<exists>best. findBestFormat start hasAlpha quality originalSize = Inr best
             \<and> ((\<exists>r \<in> set ?results. qualifies originalSize r) \<longrightarrow>
                   best \<in> set ?results
                 \<and> qualifies originalSize best
                 \<and> (\<forall>r \<in> set ?results. qualifies originalSize r \<longrightarrow> fr_size best \<le> fr_size r))
             \<and> (\<not> (\<exists>r \<in> set ?results. qualifies originalSize r)
                   \<longrightarrow> best = ?results ! 0 \<and> fr_format best = ''avif''))"
      by (intro conjI)
  qed
  from gate names qualities strict failed throws races show ?thesis
    by (intro conjI)
qed

text \<open>
  The theorem at work with the synthetic encoder, on an image without alpha: at quality
  85 with an original of 200 bytes (WebP is selected), with an original of 100 bytes
  (nothing qualifies, AVIF is selected), and at quality 120, where starting the WebP
  encode throws.
\<close>

theorem auto_format_selection_witness:
  "compressToFile format_codec (\<lambda>p. Inl ''no format'') catalog_encoder (\<lambda>p. ''.png'')
      \<lparr>speedOptimized = False, skipOptimizations = False\<rparr> Map.empty ''photo.png''
      \<lparr>opt_format = Some ''auto'', opt_quality = None, opt_strategy = None,
       opt_keepDimensions = False\<rparr>
      None 200 False =
    (Inr ''photo.webp'', writeFile Map.empty ''photo.webp'' (replicate 95 0))
   \<and> list_all (\<lambda>c. \<not> start_throws format_codec c) (format_candidates False 85)
   \<and> format_results format_codec False 85 =
      Inr [FormatResult ''avif'' ''.avif'' (Inr (replicate 97 0)),
           FormatResult ''webp'' ''.webp'' (Inr (replicate 95 0)),
           FormatResult ''jpeg'' ''.jpg'' (Inr (replicate 99 0))]
   \<and> list_all (qualifies 200) (race_results format_codec False 85)
   \<and> findBestFormat format_codec False 85 200 =
        Inr (FormatResult ''webp'' ''.webp'' (Inr (replicate 95 0)))
   \<and> list_all (\<lambda>r. \<not> qualifies 100 r) (race_results format_codec False 85)
   \<and> findBestFormat format_codec False 85 100 =
        Inr (FormatResult ''avif'' ''.avif'' (Inr (replicate 97 0)))
   \<and> start_throws format_codec (format_candidates False 120 ! 1)
   \<and> findBestFormat format_codec False 120 200 =
        Inl ''Expected integer between 1 and 100 for quality''
   \<and> compressToFile format_codec (\<lambda>p. Inl ''no format'') catalog_encoder (\<lambda>p. ''.png'')
      \<lparr>speedOptimized = False, skipOptimizations = False\<rparr> Map.empty ''photo.png''
      \<lparr>opt_format = Some ''auto'', opt_quality = Some 120, opt_strategy = None,
       opt_keepDimensions = False\<rparr>
      None 200 False =
    (Inl ''Expected integer between 1 and 100 for quality'', Map.empty)"
proof -
  let ?cmp = "\<lparr>speedOptimized = False, skipOptimizations = False\<rparr>"
  let ?toFile = "\<lambda>p::string. (Inl ''no format'' :: string + buffer)"
  let ?ext = "\<lambda>p::string. ''.png''"
  have nt: "list_all (\<lambda>c. \<not> start_throws format_codec c) (format_candidates False 85)"
    by (simp add: format_candidates_def start_throws_def format_codec_def)
  have race: "race_results format_codec False 85 =
      [FormatResult ''avif'' ''.avif'' (Inr (replicate 97 0)),
       FormatResult ''webp'' ''.webp'' (Inr (replicate 95 0)),
       FormatResult ''jpeg'' ''.jpg'' (Inr (replicate 99 0))]"
    by (simp add: race_results_def format_candidates_def format_codec_def awaited_def)
  have results: "format_results format_codec False 85 =
      Inr [FormatResult ''avif'' ''.avif'' (Inr (replicate 97 0)),
           FormatResult ''webp'' ''.webp'' (Inr (replicate 95 0)),
           FormatResult ''jpeg'' ''.jpg'' (Inr (replicate 99 0))]"
    by (simp add: format_results_def format_candidates_def format_codec_def)
  have best200: "findBestFormat format_codec False 85 200 =
      Inr (FormatResult ''webp'' ''.webp'' (Inr (replicate 95 0)))"
    by (simp add: findBestFormat_def results qualifies_iff sort_by_def by_fr_size_def)
  have best100: "findBestFormat format_codec False 85 100 =
      Inr (FormatResult ''avif'' ''.avif'' (Inr (replicate 97 0)))"
    by (simp add: findBestFormat_def results qualifies_iff sort_by_def by_fr_size_def)
  have th: "start_throws format_codec (format_candidates False 120 ! 1)"
    by (simp add: format_candidates_def start_throws_def format_codec_def)
  have best120: "findBestFormat format_codec False 120 200 =
        Inl ''Expected integer between 1 and 100 for quality''"
    by (simp add: findBestFormat_def format_results_def format_candidates_def format_codec_def)
  have w200: "compressToFile format_codec ?toFile catalog_encoder ?ext ?cmp Map.empty ''photo.png''
      \<lparr>opt_format = Some ''auto'', opt_quality = None, opt_strategy = None,
       opt_keepDimensions = False\<rparr> None 200 False =
    (Inr ''photo.webp'', writeFile Map.empty ''photo.webp'' (replicate 95 0))"
    using auto_format_selection [where targetSize = None
        and options = "\<lparr>opt_format = Some ''auto'', opt_quality = None, opt_strategy = None,
              opt_keepDimensions = False\<rparr>" and quality = 85 and start = format_codec
        and toFile = ?toFile and encodeStrategy = catalog_encoder and extname = ?ext
        and this = ?cmp and fs = Map.empty and outputPath = "''photo.png''"
        and originalSize = 200 and hasAlpha = False, THEN conjunct1]
    by (simp add: best200 replace_ext_def)
  have w120: "compressToFile format_codec ?toFile catalog_encoder ?ext ?cmp Map.empty ''photo.png''
      \<lparr>opt_format = Some ''auto'', opt_quality = Some 120, opt_strategy = None,
       opt_keepDimensions = False\<rparr> None 200 False =
    (Inl ''Expected integer between 1 and 100 for quality'', Map.empty)"
    using auto_format_selection [where targetSize = None
        and options = "\<lparr>opt_format = Some ''auto'', opt_quality = Some 120, opt_strategy = None,
              opt_keepDimensions = False\<rparr>" and quality = 120 and start = format_codec
        and toFile = ?toFile and encodeStrategy = catalog_encoder and extname = ?ext
        and this = ?cmp and fs = Map.empty and outputPath = "''photo.png''"
        and originalSize = 200 and hasAlpha = False, THEN conjunct1]
    by (simp add: best120)
  have q200: "list_all (qualifies 200) (race_results format_codec False 85)"
    by (simp add: race qualifies_iff)
  have q100: "list_all (\<lambda>r. \<not> qualifies 100 r) (race_results format_codec False 85)"
    by (simp add: race qualifies_iff)
  from w200 nt results q200 best200 q100 best100 th best120 w120 show ?thesis
    by (intro conjI)
qed

text \<open>
  Claim C6 as stated fails. At requested quality 85 the AVIF candidate is encoded at
  quality 50. With an original of 100 bytes and outputs of 97 (AVIF), 95 (WebP) and 99
  (JPEG) bytes, the WebP result is at least 5% smaller than the original (exactly 5%)
  and is the smallest such result, yet the selection is the first candidate, AVIF. And
  at quality 120, where the encoder refuses to start the WebP encode, nothing is
  selected: the selection ends with the encoder's error.
\<close>

theorem auto_format_selection_counterexample:
  "map_of (snd (snd (format_candidates False 85 ! 0))) ''quality'' = Some (Num 50)
   \<and> format_results format_codec False 85 =
      Inr [FormatResult ''avif'' ''.avif'' (Inr (replicate 97 0)),
           FormatResult ''webp'' ''.webp'' (Inr (replicate 95 0)),
           FormatResult ''jpeg'' ''.jpg'' (Inr (replicate 99 0))]
   \<and> (100::nat) * 95 \<le> 95 * 100
   \<and> findBestFormat format_codec False 85 100 =
        Inr (FormatResult ''avif'' ''.avif'' (Inr (replicate 97 0)))
   \<and> map_sum id fr_format (findBestFormat format_codec False 85 100) \<noteq> Inr ''webp''
   \<and> findBestFormat format_codec False 120 200 =
        Inl ''Expected integer between 1 and 100 for quality''"
  by (simp add: findBestFormat_def format_results_def format_candidates_def format_codec_def
        qualifies_iff sort_by_def by_fr_size_def)

section \<open>Failure isolation inside a worker chunk\<close>

lemma chunk_items_acc:
  "chunk_items env wi fs results posted =
     (results @ map (\<lambda>f. fst (process_item env wi f)) fs,
      posted @ map (\<lambda>f. snd (process_item env wi f)) fs)"
  by (induction fs arbitrary: results posted) (auto split: prod.splits)

lemma processChunk_messages:
  "processChunk env None fs wi =
     map (\<lambda>f. snd (process_item env wi f)) fs
       @ [Complete (map (\<lambda>f. fst (process_item env wi f)) fs) wi]"
  by (simp add: processChunk_def chunk_items_acc)

lemma handle_messages_append:
  "handle_messages st (xs @ ys) = handle_messages (handle_messages st xs) ys"
  by (simp add: handle_messages_def)

lemma handle_messages_Cons:
  "handle_messages (r, p) (m # ms) = handle_messages (apply_message r m, settle p m) ms"
  by (simp add: handle_messages_def)

lemma handle_messages_Nil: "handle_messages st [] = st"
  by (simp add: handle_messages_def)

lemma settle_item_message: "settle p (snd (process_item env wi f)) = p"
  by (cases p) (simp_all add: process_item_def split: sum.splits)

lemma apply_item_message:
  "apply_message r (snd (process_item env wi f)) =
     r\<lparr>errors := errors r @ failed_entries env wi [f]\<rparr>"
  by (simp add: process_item_def failed_entries_def split: sum.splits)

lemma failed_entries_Cons:
  "failed_entries env wi (f # fs) = failed_entries env wi [f] @ failed_entries env wi fs"
  by (simp add: failed_entries_def)

lemma handle_item_messages:
  "handle_messages (r, p) (map (\<lambda>f. snd (process_item env wi f)) fs) =
     (r\<lparr>errors := errors r @ failed_entries env wi fs\<rparr>, p)"
proof (induction fs arbitrary: r)
  case Nil
  show ?case by (simp add: handle_messages_Nil failed_entries_def)
next
  case (Cons f fs)
  have "handle_messages (r, p) (map (\<lambda>f. snd (process_item env wi f)) (f # fs)) =
      handle_messages (r\<lparr>errors := errors r @ failed_entries env wi [f]\<rparr>, p)
        (map (\<lambda>f. snd (process_item env wi f)) fs)"
    by (simp add: handle_messages_Cons settle_item_message apply_item_message)
  also have "\<dots> = (r\<lparr>errors := (errors r @ failed_entries env wi [f])
      @ failed_entries env wi fs\<rparr>, p)"
    by (simp add: Cons.IH)
  finally show ?case
    by (simp add: failed_entries_Cons[of env wi f fs])
qed

lemma add_result_fields:
  "processed (add_result r x) = processed r + (case x of ItemSuccess c t wi \<Rightarrow> 1 | _ \<Rightarrow> 0)"
  "errors (add_result r x) = errors r"
  by (cases x; simp add: Let_def split: option.splits)+

lemma foldl_add_result_errors: "errors (foldl add_result r rs) = errors r"
  by (induction rs arbitrary: r) (simp_all add: add_result_fields)

lemma foldl_add_result_processed:
  "processed (foldl add_result r (map (\<lambda>f. fst (process_item env wi f)) fs)) =
     processed r + length (filter (succeeded env) fs)"
proof (induction fs arbitrary: r)
  case Nil
  show ?case by simp
next
  case (Cons f fs)
  have "processed (add_result r (fst (process_item env wi f))) =
      processed r + (if succeeded env f then 1 else 0)"
    by (simp add: add_result_fields process_item_def succeeded_def split: sum.splits)
  then show ?case by (simp add: Cons.IH)
qed

text \<open>
  Claim C8. When the engines were set up, a worker posts one message per item of its
  chunk, in order: \<^verbatim>\<open>error\<close> for an item whose compression throws, \<^verbatim>\<open>progress\<close> for
  one that goes through, whatever happened to the items before it; then one
  \<^verbatim>\<open>complete\<close> carrying an entry per item, the successful results among them. The
  pool, on these messages, resolves the worker's promise (it does not reject), counts the
  successful items as processed and appends an entry for every failed item to the batch's
  error list.
\<close>

theorem chunk_failure_isolation:
  "processChunk env None fs wi =
      map (\<lambda>f. snd (process_item env wi f)) fs
        @ [Complete (map (\<lambda>f. fst (process_item env wi f)) fs) wi]
   \<and> (\<forall>f \<in> set fs.
         case compress_task env f of
           Inl err \<Rightarrow>
             process_item env wi f =
               (ItemFailure (case f of WholeFile p \<Rightarrow> p | Fragment g \<Rightarrow> originalFile g) err wi,
                ErrorMsg (task_label env f) err wi)
         | Inr r \<Rightarrow>
             process_item env wi f =
               (ItemSuccess r (elapsed env f) wi, Progress (task_label env f) r wi))
   \<and> snd (handle_messages (results, Pending) (processChunk env None fs wi)) = Resolved
   \<and> errors (fst (handle_messages (results, Pending) (processChunk env None fs wi))) =
        errors results @ failed_entries env wi fs
   \<and> processed (fst (handle_messages (results, Pending) (processChunk env None fs wi))) =
        processed results + length (filter (succeeded env) fs)"
proof -
  let ?items = "map (\<lambda>f. snd (process_item env wi f)) fs"
  let ?entries = "map (\<lambda>f. fst (process_item env wi f)) fs"
  let ?r1 = "results\<lparr>errors := errors results @ failed_entries env wi fs\<rparr>"
  have posted: "processChunk env None fs wi = ?items @ [Complete ?entries wi]"
    by (rule processChunk_messages)
  have each: "\<forall>f \<in> set fs.
         case compress_task env f of
           Inl err \<Rightarrow>
             process_item env wi f =
               (ItemFailure (case f of WholeFile p \<Rightarrow> p | Fragment g \<Rightarrow> originalFile g) err wi,
                ErrorMsg (task_label env f) err wi)
         | Inr r \<Rightarrow>
             process_item env wi f =
               (ItemSuccess r (elapsed env f) wi, Progress (task_label env f) r wi)"
    by (simp add: process_item_def split: sum.splits)
  have handled: "handle_messages (results, Pending) (processChunk env None fs wi) =
      (foldl add_result ?r1 ?entries, Resolved)"
    unfolding posted handle_messages_append handle_item_messages
    by (simp add: handle_messages_Cons handle_messages_Nil)
  have errs: "errors (foldl add_result ?r1 ?entries) = errors results @ failed_entries env wi fs"
    by (simp add: foldl_add_result_errors)
  have count: "processed (foldl add_result ?r1 ?entries) =
      processed results + length (filter (succeeded env) fs)"
    by (simp add: foldl_add_result_processed)
  show ?thesis
    unfolding handled using posted each errs count by simp
qed

theorem chunk_failure_isolation_witness:
  "processChunk demo_env None [WholeFile ''a.jpg'', WholeFile ''b.jpg''] 0 =
      [ErrorMsg ''a.jpg'' ''encode failed'' 0,
       Progress ''b.jpg'' (demo_result (InPath ''b.jpg'')) 0,
       Complete [ItemFailure ''a.jpg'' ''encode failed'' 0,
                 ItemSuccess (demo_result (InPath ''b.jpg'')) 7 0] 0]
   \<and> compress_task demo_env (WholeFile ''a.jpg'') = Inl ''encode failed''
   \<and> compress_task demo_env (WholeFile ''b.jpg'') = Inr (demo_result (InPath ''b.jpg''))
   \<and> snd (handle_messages (empty_results, Pending)
        (processChunk demo_env None [WholeFile ''a.jpg'', WholeFile ''b.jpg''] 0)) = Resolved
   \<and> errors (fst (handle_messages (empty_results, Pending)
        (processChunk demo_env None [WholeFile ''a.jpg'', WholeFile ''b.jpg''] 0))) =
      [\<lparr>err_file = ''a.jpg'', err_error = ''encode failed'', err_worker = Some 0\<rparr>]
   \<and> processed (fst (handle_messages (empty_results, Pending)
        (processChunk demo_env None [WholeFile ''a.jpg'', WholeFile ''b.jpg''] 0))) = 1"
proof -
  have a: "compress_task demo_env (WholeFile ''a.jpg'') = Inl ''encode failed''"
    by (simp add: compress_task_def demo_env_def isImage_def endsWith_def toLowerCase_def
          lower_char_def)
  have b: "compress_task demo_env (WholeFile ''b.jpg'') = Inr (demo_result (InPath ''b.jpg''))"
    by (simp add: compress_task_def demo_env_def isImage_def endsWith_def toLowerCase_def
          lower_char_def)
  have label: "task_label demo_env (WholeFile p) = p" for p
    by (simp add: task_label_def demo_env_def)
  have time: "elapsed demo_env t = 7" for t
    by (simp add: demo_env_def)
  have item_a: "process_item demo_env 0 (WholeFile ''a.jpg'') =
      (ItemFailure ''a.jpg'' ''encode failed'' 0, ErrorMsg ''a.jpg'' ''encode failed'' 0)"
    by (simp add: process_item_def a label)
  have item_b: "process_item demo_env 0 (WholeFile ''b.jpg'') =
      (ItemSuccess (demo_result (InPath ''b.jpg'')) 7 0,
       Progress ''b.jpg'' (demo_result (InPath ''b.jpg'')) 0)"
    by (simp add: process_item_def b label time)
  have posted: "processChunk demo_env None [WholeFile ''a.jpg'', WholeFile ''b.jpg''] 0 =
      [ErrorMsg ''a.jpg'' ''encode failed'' 0,
       Progress ''b.jpg'' (demo_result (InPath ''b.jpg'')) 0,
       Complete [ItemFailure ''a.jpg'' ''encode failed'' 0,
                 ItemSuccess (demo_result (InPath ''b.jpg'')) 7 0] 0]"
    using chunk_failure_isolation[of demo_env "[WholeFile ''a.jpg'', WholeFile ''b.jpg'']" 0
            empty_results, THEN conjunct1]
    by (simp add: item_a item_b)
  have handled: "handle_messages (empty_results, Pending)
        (processChunk demo_env None [WholeFile ''a.jpg'', WholeFile ''b.jpg''] 0) =
      (empty_results\<lparr>processed := 1,
         errors := [\<lparr>err_file = ''a.jpg'', err_error = ''encode failed'', err_worker = Some 0\<rparr>],
         totalSizeReduction := 60, processingTimes := [7],
         result_files := [(InPath ''b.jpg'', ''out.jpg'')]\<rparr>, Resolved)"
    unfolding posted
    by (simp add: handle_messages_def empty_results_def demo_result_def)
  show ?thesis
    unfolding handled using posted a b by simp
qed

section \<open>Aggregation of the workers' results\<close>

lemma add_result_split:
  "processed (add_result r x) = processed r + processed (add_result empty_results x)"
  "totalSizeReduction (add_result r x) =
     totalSizeReduction r + totalSizeReduction (add_result empty_results x)"
  "errors (add_result r x) = errors r"
  "result_files (add_result r x) = result_files r @ result_files (add_result empty_results x)"
  by (cases x; simp add: Let_def empty_results_def split: option.splits)+

lemma foldl_add_result_split:
  "processed (foldl add_result r xs) = processed r + processed (foldl add_result empty_results xs)"
  "totalSizeReduction (foldl add_result r xs) =
     totalSizeReduction r + totalSizeReduction (foldl add_result empty_results xs)"
  "errors (foldl add_result r xs) = errors r"
  "result_files (foldl add_result r xs) =
     result_files r @ result_files (foldl add_result empty_results xs)"
proof -
  show "processed (foldl add_result r xs) =
      processed r + processed (foldl add_result empty_results xs)"
  proof (induction xs arbitrary: r)
    case Nil
    show ?case by (simp add: empty_results_def)
  next
    case (Cons x xs)
    show ?case
      using Cons.IH[of "add_result r x"] Cons.IH[of "add_result empty_results x"]
        add_result_split(1)[of r x]
      by simp
  qed
  show "totalSizeReduction (foldl add_result r xs) =
      totalSizeReduction r + totalSizeReduction (foldl add_result empty_results xs)"
  proof (induction xs arbitrary: r)
    case Nil
    show ?case by (simp add: empty_results_def)
  next
    case (Cons x xs)
    show ?case
      using Cons.IH[of "add_result r x"] Cons.IH[of "add_result empty_results x"]
        add_result_split(2)[of r x]
      by simp
  qed
  show "errors (foldl add_result r xs) = errors r"
    by (induction xs arbitrary: r) (simp_all add: add_result_split(3))
  show "result_files (foldl add_result r xs) =
      result_files r @ result_files (foldl add_result empty_results xs)"
  proof (induction xs arbitrary: r)
    case Nil
    show ?case by (simp add: empty_results_def)
  next
    case (Cons x xs)
    show ?case
      using Cons.IH[of "add_result r x"] Cons.IH[of "add_result empty_results x"]
        add_result_split(4)[of r x]
      by simp
  qed
qed

lemma apply_message_split:
  "processed (apply_message r m) = processed r + processed (apply_message empty_results m)"
  "totalSizeReduction (apply_message r m) =
     totalSizeReduction r + totalSizeReduction (apply_message empty_results m)"
  "errors (apply_message r m) = errors r @ errors (apply_message empty_results m)"
  "result_files (apply_message r m) =
     result_files r @ result_files (apply_message empty_results m)"
proof -
  have e: "processed empty_results = 0" "totalSizeReduction empty_results = 0"
      "errors empty_results = []" "result_files empty_results = []"
    by (simp_all add: empty_results_def)
  show "processed (apply_message r m) = processed r + processed (apply_message empty_results m)"
    by (cases m) (simp_all add: e foldl_add_result_split(1)[of r])
  show "totalSizeReduction (apply_message r m) =
      totalSizeReduction r + totalSizeReduction (apply_message empty_results m)"
    by (cases m) (simp_all add: e foldl_add_result_split(2)[of r])
  show "errors (apply_message r m) = errors r @ errors (apply_message empty_results m)"
    by (cases m) (simp_all add: e foldl_add_result_split(3))
  show "result_files (apply_message r m) =
      result_files r @ result_files (apply_message empty_results m)"
    by (cases m) (simp_all add: e foldl_add_result_split(4)[of r])
qed

lemma foldl_apply_message_fields:
  "processed (foldl apply_message r ms) =
     processed r + sum_list (map (\<lambda>m. processed (apply_message empty_results m)) ms)"
  "totalSizeReduction (foldl apply_message r ms) =
     totalSizeReduction r
       + sum_list (map (\<lambda>m. totalSizeReduction (apply_message empty_results m)) ms)"
  "errors (foldl apply_message r ms) =
     errors r @ concat (map (\<lambda>m. errors (apply_message empty_results m)) ms)"
  "result_files (foldl apply_message r ms) =
     result_files r @ concat (map (\<lambda>m. result_files (apply_message empty_results m)) ms)"
proof -
  show "processed (foldl apply_message r ms) =
     processed r + sum_list (map (\<lambda>m. processed (apply_message empty_results m)) ms)"
  proof (induction ms arbitrary: r)
    case Nil
    show ?case by simp
  next
    case (Cons m ms)
    show ?case using Cons.IH[of "apply_message r m"] apply_message_split(1)[of r m] by simp
  qed
  show "totalSizeReduction (foldl apply_message r ms) =
     totalSizeReduction r
       + sum_list (map (\<lambda>m. totalSizeReduction (apply_message empty_results m)) ms)"
  proof (induction ms arbitrary: r)
    case Nil
    show ?case by simp
  next
    case (Cons m ms)
    show ?case using Cons.IH[of "apply_message r m"] apply_message_split(2)[of r m] by simp
  qed
  show "errors (foldl apply_message r ms) =
     errors r @ concat (map (\<lambda>m. errors (apply_message empty_results m)) ms)"
  proof (induction ms arbitrary: r)
    case Nil
    show ?case by simp
  next
    case (Cons m ms)
    show ?case using Cons.IH[of "apply_message r m"] apply_message_split(3)[of r m] by simp
  qed
  show "result_files (foldl apply_message r ms) =
     result_files r @ concat (map (\<lambda>m. result_files (apply_message empty_results m)) ms)"
  proof (induction ms arbitrary: r)
    case Nil
    show ?case by simp
  next
    case (Cons m ms)
    show ?case using Cons.IH[of "apply_message r m"] apply_message_split(4)[of r m] by simp
  qed
qed

lemma sum_list_map_mset_cong:
  fixes f :: "'a \<Rightarrow> 'b::comm_monoid_add"
  assumes "mset xs = mset ys"
  shows "sum_list (map f xs) = sum_list (map f ys)"
proof -
  have "sum_list (map f xs) = sum_mset (mset (map f xs))" by (simp only: sum_mset_sum_list)
  also have "\<dots> = sum_mset (image_mset f (mset xs))" by simp
  also have "\<dots> = sum_mset (image_mset f (mset ys))" by (simp only: assms)
  also have "\<dots> = sum_mset (mset (map f ys))" by simp
  also have "\<dots> = sum_list (map f ys)" by (simp only: sum_mset_sum_list)
  finally show ?thesis .
qed

lemma mset_concat_map_cong:
  assumes "mset xs = mset ys"
  shows "mset (concat (map g xs)) = mset (concat (map g ys))"
proof -
  have "mset (concat (map g zs)) = sum_list (map (\<lambda>z. mset (g z)) zs)" for zs
    by (induction zs) simp_all
  then show ?thesis
    using sum_list_map_mset_cong[OF assms, of "\<lambda>z. mset (g z)"] by simp
qed

text \<open>
  Claim C4, as amended. The pool merges the workers' messages into the shared results in
  the order they arrive. For the same messages in any other order the processed count and
  the total size reduction are identical, and the error list and the file list hold the
  same entries the same number of times (hence the same error set), in an order that
  follows the arrival order. Merging is associative: handling a first part of the
  messages and then the rest is handling them all, and \<^verbatim>\<open>accumulateThreadResults\<close> may
  be regrouped; swapping two sources of \<^verbatim>\<open>accumulateThreadResults\<close> keeps the counts and
  permutes the two lists.
\<close>

theorem aggregation_order_independent:
  "(mset msgs = mset msgs' \<longrightarrow>
        processed (foldl apply_message r msgs) = processed (foldl apply_message r msgs')
      \<and> totalSizeReduction (foldl apply_message r msgs) =
          totalSizeReduction (foldl apply_message r msgs')
      \<and> mset (errors (foldl apply_message r msgs)) =
          mset (errors (foldl apply_message r msgs'))
      \<and> set (errors (foldl apply_message r msgs)) =
          set (errors (foldl apply_message r msgs'))
      \<and> mset (result_files (foldl apply_message r msgs)) =
          mset (result_files (foldl apply_message r msgs')))
   \<and> foldl apply_message r (xs @ ys) = foldl apply_message (foldl apply_message r xs) ys
   \<and> accumulateThreadResults c (accumulateThreadResults b t) =
        accumulateThreadResults (accumulateThreadResults c b) t
   \<and> processed (accumulateThreadResults c (accumulateThreadResults b t)) =
        processed (accumulateThreadResults b (accumulateThreadResults c t))
   \<and> totalSizeReduction (accumulateThreadResults c (accumulateThreadResults b t)) =
        totalSizeReduction (accumulateThreadResults b (accumulateThreadResults c t))
   \<and> mset (errors (accumulateThreadResults c (accumulateThreadResults b t))) =
        mset (errors (accumulateThreadResults b (accumulateThreadResults c t)))
   \<and> mset (result_files (accumulateThreadResults c (accumulateThreadResults b t))) =
        mset (result_files (accumulateThreadResults b (accumulateThreadResults c t)))"
  (is "?perm \<and> ?split \<and> ?assoc \<and> ?c1 \<and> ?c2 \<and> ?c3 \<and> ?c4")
proof -
  have perm: ?perm
  proof
    assume eq: "mset msgs = mset msgs'"
    have p: "processed (foldl apply_message r msgs) = processed (foldl apply_message r msgs')"
      unfolding foldl_apply_message_fields(1)
      by (simp only: sum_list_map_mset_cong[OF eq])
    have t: "totalSizeReduction (foldl apply_message r msgs) =
        totalSizeReduction (foldl apply_message r msgs')"
      unfolding foldl_apply_message_fields(2)
      by (simp only: sum_list_map_mset_cong[OF eq])
    have e: "mset (errors (foldl apply_message r msgs)) =
        mset (errors (foldl apply_message r msgs'))"
      unfolding foldl_apply_message_fields(3) mset_append
      by (simp only: mset_concat_map_cong[OF eq])
    have f: "mset (result_files (foldl apply_message r msgs)) =
        mset (result_files (foldl apply_message r msgs'))"
      unfolding foldl_apply_message_fields(4) mset_append
      by (simp only: mset_concat_map_cong[OF eq])
    from e have s: "set (errors (foldl apply_message r msgs)) =
        set (errors (foldl apply_message r msgs'))"
      by (rule mset_eq_setD)
    from p t e s f show "processed (foldl apply_message r msgs) =
          processed (foldl apply_message r msgs')
      \<and> totalSizeReduction (foldl apply_message r msgs) =
          totalSizeReduction (foldl apply_message r msgs')
      \<and> mset (errors (foldl apply_message r msgs)) =
          mset (errors (foldl apply_message r msgs'))
      \<and> set (errors (foldl apply_message r msgs)) =
          set (errors (foldl apply_message r msgs'))
      \<and> mset (result_files (foldl apply_message r msgs)) =
          mset (result_files (foldl apply_message r msgs'))"
      by (intro conjI)
  qed
  have split: ?split by (rule foldl_append)
  have assoc: ?assoc by (simp add: accumulateThreadResults_def comp_def)
  have c1: ?c1 and c2: ?c2 and c3: ?c3 and c4: ?c4
    by (simp_all add: accumulateThreadResults_def)
  from perm split assoc c1 c2 c3 c4 show ?thesis by (intro conjI)
qed

theorem aggregation_order_independent_witness:
  "mset [Complete [ItemSuccess (demo_result (InPath ''a.png'')) 5 0] 0,
         ErrorMsg ''c.png'' ''encode failed'' 1,
         Complete [ItemSuccess (demo_result (InPath ''b.png'')) 5 1] 1] =
   mset [ErrorMsg ''c.png'' ''encode failed'' 1,
         Complete [ItemSuccess (demo_result (InPath ''b.png'')) 5 1] 1,
         Complete [ItemSuccess (demo_result (InPath ''a.png'')) 5 0] 0]
   \<and> processed (foldl apply_message empty_results
        [Complete [ItemSuccess (demo_result (InPath ''a.png'')) 5 0] 0,
         ErrorMsg ''c.png'' ''encode failed'' 1,
         Complete [ItemSuccess (demo_result (InPath ''b.png'')) 5 1] 1]) = 2
   \<and> processed (foldl apply_message empty_results
        [ErrorMsg ''c.png'' ''encode failed'' 1,
         Complete [ItemSuccess (demo_result (InPath ''b.png'')) 5 1] 1,
         Complete [ItemSuccess (demo_result (InPath ''a.png'')) 5 0] 0]) = 2
   \<and> totalSizeReduction (foldl apply_message empty_results
        [Complete [ItemSuccess (demo_result (InPath ''a.png'')) 5 0] 0,
         ErrorMsg ''c.png'' ''encode failed'' 1,
         Complete [ItemSuccess (demo_result (InPath ''b.png'')) 5 1] 1]) = 120
   \<and> totalSizeReduction (foldl apply_message empty_results
        [ErrorMsg ''c.png'' ''encode failed'' 1,
         Complete [ItemSuccess (demo_result (InPath ''b.png'')) 5 1] 1,
         Complete [ItemSuccess (demo_result (InPath ''a.png'')) 5 0] 0]) = 120
   \<and> mset (result_files (foldl apply_message empty_results
        [Complete [ItemSuccess (demo_result (InPath ''a.png'')) 5 0] 0,
         ErrorMsg ''c.png'' ''encode failed'' 1,
         Complete [ItemSuccess (demo_result (InPath ''b.png'')) 5 1] 1])) =
     mset (result_files (foldl apply_message empty_results
        [ErrorMsg ''c.png'' ''encode failed'' 1,
         Complete [ItemSuccess (demo_result (InPath ''b.png'')) 5 1] 1,
         Complete [ItemSuccess (demo_result (InPath ''a.png'')) 5 0] 0]))"
proof -
  let ?a = "Complete [ItemSuccess (demo_result (InPath ''a.png'')) 5 0] 0"
  let ?b = "Complete [ItemSuccess (demo_result (InPath ''b.png'')) 5 1] 1"
  let ?c = "ErrorMsg ''c.png'' ''encode failed'' 1"
  have eq: "mset [?a, ?c, ?b] = mset [?c, ?b, ?a]" by simp
  have ev: "processed (foldl apply_message empty_results [?a, ?c, ?b]) = 2"
      "totalSizeReduction (foldl apply_message empty_results [?a, ?c, ?b]) = 120"
    by (simp_all add: empty_results_def demo_result_def)
  from aggregation_order_independent[of "[?a, ?c, ?b]" "[?c, ?b, ?a]" empty_results,
      THEN conjunct1, THEN mp, OF eq]
  show ?thesis
    using eq ev by simp
qed

text \<open>
  Claim C4 as stated fails for the file list: the same two \<^verbatim>\<open>complete\<close> messages,
  handled in the two possible orders, give file lists that differ (one is the other
  reversed).
\<close>

theorem aggregation_file_list_counterexample:
  "mset [Complete [ItemSuccess (demo_result (InPath ''a.png'')) 5 0] 0,
         Complete [ItemSuccess ((demo_result (InPath ''b.png''))\<lparr>cr_outputFile := Some ''b.jpg''\<rparr>) 5 1] 1] =
   mset [Complete [ItemSuccess ((demo_result (InPath ''b.png''))\<lparr>cr_outputFile := Some ''b.jpg''\<rparr>) 5 1] 1,
         Complete [ItemSuccess (demo_result (InPath ''a.png'')) 5 0] 0]
   \<and> result_files (foldl apply_message empty_results
        [Complete [ItemSuccess (demo_result (InPath ''a.png'')) 5 0] 0,
         Complete [ItemSuccess ((demo_result (InPath ''b.png''))\<lparr>cr_outputFile := Some ''b.jpg''\<rparr>) 5 1] 1]) =
      [(InPath ''a.png'', ''out.jpg''), (InPath ''b.png'', ''b.jpg'')]
   \<and> result_files (foldl apply_message empty_results
        [Complete [ItemSuccess ((demo_result (InPath ''b.png''))\<lparr>cr_outputFile := Some ''b.jpg''\<rparr>) 5 1] 1,
         Complete [ItemSuccess (demo_result (InPath ''a.png'')) 5 0] 0]) =
      [(InPath ''b.png'', ''b.jpg''), (InPath ''a.png'', ''out.jpg'')]
   \<and> result_files (foldl apply_message empty_results
        [Complete [ItemSuccess (demo_result (InPath ''a.png'')) 5 0] 0,
         Complete [ItemSuccess ((demo_result (InPath ''b.png''))\<lparr>cr_outputFile := Some ''b.jpg''\<rparr>) 5 1] 1]) \<noteq>
      result_files (foldl apply_message empty_results
        [Complete [ItemSuccess ((demo_result (InPath ''b.png''))\<lparr>cr_outputFile := Some ''b.jpg''\<rparr>) 5 1] 1,
         Complete [ItemSuccess (demo_result (InPath ''a.png'')) 5 0] 0])"
  by (simp add: empty_results_def demo_result_def)


section \<open>Fragmenter: the bands of a large image\<close>

text \<open>
  The inner loop, when every extraction succeeds, pushes one fragment for each
  \<open>k = i, \<dots>, n - 1\<close> and extracts the region \<open>band_region W H n fh k\<close> for it.
\<close>

lemma band_loop_stop:
  "\<not> i < n \<Longrightarrow> band_loop env file e W H n fh i pushed regions = (Inr pushed, regions)"
  by (subst band_loop.simps) simp

lemma band_loop_step:
  assumes "i < n" and "fe_extract env file (band_region W H n fh i) = Inr b"
  shows "band_loop env file e W H n fh i pushed regions =
           band_loop env file e W H n fh (i + 1)
             (pushed @ [Fragment \<lparr>frag_buffer = b, fragmentIndex = nat i,
                                  totalFragments = nat n, originalFile = file, frag_ext = e\<rparr>])
             (regions @ [band_region W H n fh i])"
  using assms by (subst band_loop.simps) (simp add: band_region_def Let_def)

lemma band_loop_all:
  assumes ex: "\<And>r. fe_extract env file r = Inr (ex r)"
  shows "band_loop env file e W H n fh i pushed regions =
           (Inr (pushed @ map (\<lambda>k. Fragment \<lparr>frag_buffer = ex (band_region W H n fh k),
                                   fragmentIndex = nat k, totalFragments = nat n,
                                   originalFile = file, frag_ext = e\<rparr>) [i..n - 1]),
            regions @ map (band_region W H n fh) [i..n - 1])"
proof (induction "nat (n - i)" arbitrary: i pushed regions)
  case 0
  then have "\<not> i < n" by simp
  moreover from this have "[i..n - 1] = []" by simp
  ultimately show ?case by (simp add: band_loop_stop)
next
  case (Suc m)
  then have lt: "i < n" by linarith
  from Suc.hyps(2) have m: "m = nat (n - (i + 1))" by linarith
  have up: "[i..n - 1] = i # [i + 1..n - 1]"
    using lt by (simp add: upto_rec1)
  show ?case
    by (simp add: band_loop_step [OF lt ex] Suc.hyps(1) [OF m] up)
qed

text \<open>Consecutive bands touch, and the last band ends at the last row.\<close>

lemma band_tops_consecutive:
  assumes "0 \<le> k" "k < n - 1"
  shows "region_top (band_region W H n fh k) + region_height (band_region W H n fh k)
           = region_top (band_region W H n fh (k + 1))"
  using assms by (simp add: band_region_def algebra_simps)

lemma band_last_ends:
  "region_top (band_region W H n fh (n - 1)) + region_height (band_region W H n fh (n - 1)) = H"
  by (simp add: band_region_def)

lemma div_mult_le_int:
  fixes H n :: int
  assumes "0 < n"
  shows "(H div n) * n \<le> H"
proof -
  have "(H div n) * n + H mod n = H" by simp
  moreover have "0 \<le> H mod n" using assms by simp
  ultimately show ?thesis by linarith
qed

text \<open>
  With at least as many rows as bands and band height \<open>H div n\<close>, the bands are
  non-empty, pairwise disjoint and cover exactly the rows \<open>0, \<dots>, H - 1\<close>.
\<close>

lemma bands_cover_rows:
  fixes H n :: int
  assumes n: "2 \<le> n" and H: "n \<le> H"
  defines "fh \<equiv> H div n"
  shows "(\<Union>k\<in>{0..<n}. region_rows (band_region W H n fh k)) = {0..<H}"
    and "\<And>j k. 0 \<le> j \<Longrightarrow> j < k \<Longrightarrow> k < n \<Longrightarrow>
           region_rows (band_region W H n fh j) \<inter> region_rows (band_region W H n fh k) = {}"
    and "\<And>k. 0 \<le> k \<Longrightarrow> k < n \<Longrightarrow> region_rows (band_region W H n fh k) \<noteq> {}"
proof -
  have fh1: "1 \<le> fh"
  proof -
    have "n div n \<le> H div n" using n H by (intro zdiv_mono1) simp_all
    then show ?thesis unfolding fh_def using n by simp
  qed
  have fhn: "fh * n \<le> H"
    unfolding fh_def using div_mult_le_int [of n H] n by simp
  have lastpos: "(n - 1) * fh < H"
  proof -
    have "(n - 1) * fh = fh * n - fh" by (simp add: algebra_simps)
    then show ?thesis using fhn fh1 by linarith
  qed
  have rows: "region_rows (band_region W H n fh k) =
                (if k = n - 1 then {k * fh ..< H} else {k * fh ..< (k + 1) * fh})" for k
    by (simp add: region_rows_def band_region_def algebra_simps)
  show ne: "\<And>k. 0 \<le> k \<Longrightarrow> k < n \<Longrightarrow> region_rows (band_region W H n fh k) \<noteq> {}"
    using fh1 lastpos by (simp add: rows)
  show "\<And>j k. 0 \<le> j \<Longrightarrow> j < k \<Longrightarrow> k < n \<Longrightarrow>
           region_rows (band_region W H n fh j) \<inter> region_rows (band_region W H n fh k) = {}"
  proof -
    fix j k :: int
    assume jk: "0 \<le> j" "j < k" "k < n"
    then have "j + 1 \<le> k" by simp
    then have "(j + 1) * fh \<le> k * fh" using fh1 by (intro mult_right_mono) simp_all
    moreover have "j \<noteq> n - 1" using jk by simp
    ultimately show "region_rows (band_region W H n fh j) \<inter> region_rows (band_region W H n fh k) = {}"
      by (auto simp add: rows)
  qed
  show "(\<Union>k\<in>{0..<n}. region_rows (band_region W H n fh k)) = {0..<H}"
  proof (rule set_eqI, rule iffI)
    fix row
    assume "row \<in> (\<Union>k\<in>{0..<n}. region_rows (band_region W H n fh k))"
    then obtain k where k: "0 \<le> k" "k < n" and r: "row \<in> region_rows (band_region W H n fh k)"
      by auto
    have low: "0 \<le> k * fh" using k fh1 by simp
    show "row \<in> {0..<H}"
    proof (cases "k = n - 1")
      case True
      then show ?thesis using r low by (simp add: rows)
    next
      case False
      then have "k + 1 \<le> n - 1" using k by simp
      then have "(k + 1) * fh \<le> (n - 1) * fh" using fh1 by (intro mult_right_mono) simp_all
      then show ?thesis using r low lastpos False by (simp add: rows)
    qed
  next
    fix row
    assume "row \<in> {0..<H}"
    then have row: "0 \<le> row" "row < H" by simp_all
    define k where "k = min (row div fh) (n - 1)"
    have fhpos: "0 < fh" using fh1 by simp
    have d0: "0 \<le> row div fh" using row fhpos by (simp add: pos_imp_zdiv_nonneg_iff)
    have k: "0 \<le> k" "k < n" using d0 n by (simp_all add: k_def)
    have dl: "(row div fh) * fh \<le> row" using div_mult_le_int [OF fhpos, of row] .
    have du: "row < (row div fh + 1) * fh"
    proof -
      have "(row div fh) * fh + row mod fh = row" by simp
      moreover have "row mod fh < fh" using fhpos by simp
      moreover have "(row div fh + 1) * fh = (row div fh) * fh + fh"
        by (simp add: algebra_simps)
      ultimately show ?thesis by linarith
    qed
    have "row \<in> region_rows (band_region W H n fh k)"
    proof (cases "row div fh < n - 1")
      case True
      then have "k = row div fh" "k \<noteq> n - 1" by (simp_all add: k_def)
      then show ?thesis using dl du by (simp add: rows)
    next
      case False
      then have kk: "k = n - 1" by (simp add: k_def)
      from False have "n - 1 \<le> row div fh" by simp
      then have "(n - 1) * fh \<le> (row div fh) * fh" using fh1 by (intro mult_right_mono) simp_all
      then show ?thesis using dl row kk by (simp add: rows)
    qed
    then show "row \<in> (\<Union>k\<in>{0..<n}. region_rows (band_region W H n fh k))"
      using k by auto
  qed
qed

text \<open>
  A supported image at or above the size threshold, with known dimensions and at least
  as many rows as bands, is split into \<open>n = max 2 threadCount\<close> fragments whose regions
  are the bands of height \<open>H div n\<close>, the last one taking the remainder. By
  \<open>bands_cover_rows\<close> these bands are non-empty, pairwise disjoint, and cover the rows
  \<open>0, \<dots>, H - 1\<close>.
\<close>

lemma split_file_tall:
  assumes sup: "toLowerCase (fe_extname env file)
                  \<in> set [''.jpg'', ''.jpeg'', ''.png'', ''.webp'', ''.avif'', ''.bmp'', ''.tiff'']"
    and st: "fe_stat env file = Inr fileSize" and big: "MIN_FRAGMENT_SIZE \<le> fileSize"
    and md: "fe_metadata env file = Inr (Some h, Some w)"
    and w: "0 < w" and tall: "max 2 threadCount \<le> int h"
    and ex: "\<And>r. fe_extract env file r = Inr (ex r)"
  shows "split_file env threadCount file =
           (Inr (map (\<lambda>k. Fragment
                         \<lparr>frag_buffer = ex (band_region (int w) (int h) (max 2 threadCount)
                                               (int h div max 2 threadCount) k),
                          fragmentIndex = nat k, totalFragments = nat (max 2 threadCount),
                          originalFile = file,
                          frag_ext = toLowerCase (fe_extname env file)\<rparr>)
                   [0..max 2 threadCount - 1]),
            map (band_region (int w) (int h) (max 2 threadCount) (int h div max 2 threadCount))
              [0..max 2 threadCount - 1])"
proof -
  let ?n = "max 2 threadCount"
  have n2: "2 \<le> ?n" by simp
  have "?n div ?n \<le> int h div ?n" using n2 tall by (intro zdiv_mono1) simp_all
  then have q: "int h div ?n \<noteq> 0" using n2 by simp
  have h0: "0 < h" using tall n2 by linarith
  have nb: "\<not> fileSize < MIN_FRAGMENT_SIZE" using big by simp
  show ?thesis
    using sup w
    by (simp add: split_file_def Let_def st nb md h0 q MIN_FRAGMENTS_def
          band_loop_all [OF ex])
qed

text \<open>
  C1. The fragmenter always asks for \<open>max 2 threadCount\<close> bands. When the image has fewer
  rows than that, the quotient \<open>imageHeight div fragments\<close> is zero, the band height falls
  back to the whole image height, and every band after the first starts at or below the
  last row: the bands do not tile the rows of the image. For a PNG of 200 MiB, 1000
  pixels wide and 2 rows high, and \<open>threadCount = 3\<close>, the regions requested are rows
  \<open>0..1\<close>, rows \<open>2..3\<close> and, from row \<open>4\<close>, a height of \<open>-2\<close>; with an extraction that
  rejects a region outside the image, the whole call fails at the second band and no
  fragment is returned. (With at least as many rows as bands the split is the tiling
  described: \<open>split_file_tall\<close> and \<open>bands_cover_rows\<close>.)
\<close>

theorem split_short_image_bands:
  "snd (split_file (lenient_env 1000 2) 3 ''big.png'') =
     [\<lparr>region_left = 0, region_top = 0, region_width = 1000, region_height = 2\<rparr>,
      \<lparr>region_left = 0, region_top = 2, region_width = 1000, region_height = 2\<rparr>,
      \<lparr>region_left = 0, region_top = 4, region_width = 1000, region_height = - 2\<rparr>]
   \<and> split_file (png_env 1000 2) 3 ''big.png'' =
       (Inl ''extract_area: bad extract area'',
        [\<lparr>region_left = 0, region_top = 0, region_width = 1000, region_height = 2\<rparr>,
         \<lparr>region_left = 0, region_top = 2, region_width = 1000, region_height = 2\<rparr>])
   \<and> splitLargeImagesIntoFragments (png_env 1000 2) [''big.png''] 3 =
       Inl ''extract_area: bad extract area''"
proof -
  have a: "snd (split_file (lenient_env 1000 2) 3 ''big.png'') =
     [\<lparr>region_left = 0, region_top = 0, region_width = 1000, region_height = 2\<rparr>,
      \<lparr>region_left = 0, region_top = 2, region_width = 1000, region_height = 2\<rparr>,
      \<lparr>region_left = 0, region_top = 4, region_width = 1000, region_height = - 2\<rparr>]"
    by (simp add: split_file_def lenient_env_def toLowerCase_def lower_char_def Let_def
          MIN_FRAGMENT_SIZE_def MIN_FRAGMENTS_def band_loop.simps)
  have b: "split_file (png_env 1000 2) 3 ''big.png'' =
       (Inl ''extract_area: bad extract area'',
        [\<lparr>region_left = 0, region_top = 0, region_width = 1000, region_height = 2\<rparr>,
         \<lparr>region_left = 0, region_top = 2, region_width = 1000, region_height = 2\<rparr>])"
    by (simp add: split_file_def png_env_def strict_extract_def toLowerCase_def lower_char_def
          Let_def MIN_FRAGMENT_SIZE_def MIN_FRAGMENTS_def band_loop.simps)
  have c: "splitLargeImagesIntoFragments (png_env 1000 2) [''big.png''] 3 =
       Inl ''extract_area: bad extract area''"
    by (simp add: b)
  from a b c show ?thesis by (intro conjI)
qed

section \<open>Public interface: malformed and unreachable size budgets\<close>

text \<open>
  The pattern at work: a unit in either case, white space before it (a no-break space
  included), a fraction; and texts it refuses.
\<close>

lemma match_target_size_examples:
  "match_target_size (utf16 ''1MB'') = Some (utf16 ''1'', Some (utf16 ''MB''))"
  "match_target_size (utf16 ''4.5 kb'') = Some (utf16 ''4.5'', Some (utf16 ''kb''))"
  "match_target_size (utf16 ''500'') = Some (utf16 ''500'', None)"
  "match_target_size (utf16 ''500'' @ [160] @ utf16 ''B'') = Some (utf16 ''500'', Some (utf16 ''B''))"
  "match_target_size (utf16 ''4.'') = None"
  "match_target_size (utf16 ''5 apples'') = None"
  "match_target_size (utf16 ''-5'') = None"
  by (simp_all add: match_target_size_def is_digit_def is_space_def toUpperCase_def
        upper_unit_def utf16_def Let_def)




end
